theory Spec2Isabelle
  imports Complex_Main "HOL-Library.Multiset"
begin

section \<open>Data model\<close>

text \<open>
  The factory generator of \<^verbatim>\<open>factory.ts\<close> builds a graph of storage nodes (containers),
  fabrication nodes (industries), output nodes, relays (transfer units) and relay-storage nodes
  (transfer containers). The graph classes live in the module \<^verbatim>\<open>./graph\<close> and the recipes in
  \<^verbatim>\<open>./recipes\<close> and \<^verbatim>\<open>./items\<close>; \<^verbatim>\<open>factory.ts\<close> only imports them. What
  \<^verbatim>\<open>factory.ts\<close> reads of them is modelled here from the specification and from the way the
  source uses them; every such definition says so.

  Numbers are exact rationals: the source computes with IEEE doubles, and the model is the
  computation without rounding. Where the source would divide by zero (and continue with an
  infinity or a NaN) the model stops with \<open>NonFinite\<close>.
\<close>

type_synonym Item = nat
type_synonym PerMinute = rat

text \<open>A recipe: product and quantity, ingredients and byproducts with their quantities, time.\<close>

record Recipe =
  product :: "Item \<times> rat"
  ingredients :: "(Item \<times> rat) list"
  byproducts :: "(Item \<times> rat) list"
  time :: rat

text \<open>
  Modelled from the spec: the recipe database of \<^verbatim>\<open>./recipes\<close>, which owns the recipes and
  is looked up by item. \<^verbatim>\<open>findRecipe\<close> hands out the database's own recipe object, so the
  database is a store from items to recipes, and an update of a recipe obtained from it is an
  update of the store.
\<close>

type_synonym RecipeDB = "Item \<Rightarrow> Recipe option"

datatype error =
    CapacityExceeded
  | UnableToTransfer
  | ContainerIncomingLimit
  | ContainerOutgoingLimit
  | EgressExceedsIngress
  | SplitOutgoing
  | IndustryIncomingLimit
  | NoRecipe
  | NonFinite
  | OutOfFuel

text \<open>
  Modelled from the spec: a precondition of the generator is that every craftable item has a
  recipe; the model stops with \<open>NoRecipe\<close> where it has none.
\<close>

definition findRecipe :: "RecipeDB \<Rightarrow> Item \<Rightarrow> error + Recipe" where
  "findRecipe db i = (case db i of None \<Rightarrow> Inl NoRecipe | Some r \<Rightarrow> Inr r)"

datatype NodeKind = ContainerNode | IndustryNode | OutputNode | TransferNode | TransferContainerNode

text \<open>
  Modelled from the spec: the node classes of \<^verbatim>\<open>./graph\<close>. One record serves the five
  classes. \<open>producers\<close> holds the sources of the incoming links (the \<^verbatim>\<open>producers\<close> of a
  storage or relay-storage node, the \<^verbatim>\<open>inputs\<close> of a fabrication node or relay),
  \<open>consumers\<close> the targets of the outgoing links (the \<^verbatim>\<open>consumers\<close> of a storage node, the
  \<^verbatim>\<open>output\<close> of a fabrication node or relay). Both are JavaScript sets of node references:
  lists without repetition in insertion order. A node is referred to by its position in the
  graph, which is its creation order. \<open>item\<close> is not used for a relay-storage node, which has
  \<open>items\<close> instead.
\<close>

record Node =
  kind :: NodeKind
  item :: Item
  items :: "Item list"
  isSplit :: bool
  splitFraction :: rat
  rate :: PerMinute
  maintain :: rat
  producers :: "nat list"
  consumers :: "nat list"

type_synonym FactoryGraph = "Node list"

text \<open>
  What \<^verbatim>\<open>factory.ts\<close> imports and the specification leaves open is a parameter: the item
  classification \<^verbatim>\<open>isOre\<close>, the two link limits, the capacity predicates of the node
  classes and the flow getters \<^verbatim>\<open>ingress\<close> and \<^verbatim>\<open>egress\<close> of a storage node (which
  read the recipes of the linked nodes, hence the database argument).
\<close>

record Config =
  isOre :: "Item \<Rightarrow> bool"
  MAX_CONTAINER_LINKS :: nat
  MAX_INDUSTRY_LINKS :: nat
  canAddIncomingLinks :: "Node \<Rightarrow> int \<Rightarrow> bool"
  canAddOutgoingLinks :: "Node \<Rightarrow> int \<Rightarrow> bool"
  ingress :: "RecipeDB \<Rightarrow> FactoryGraph \<Rightarrow> nat \<Rightarrow> PerMinute"
  egress :: "RecipeDB \<Rightarrow> FactoryGraph \<Rightarrow> nat \<Rightarrow> PerMinute"

definition incomingLinkCount :: "Node \<Rightarrow> nat" where
  "incomingLinkCount n = length (producers n)"

definition outgoingLinkCount :: "Node \<Rightarrow> nat" where
  "outgoingLinkCount n = length (consumers n)"

text \<open>\<^verbatim>\<open>x.item\<close> as JavaScript reads it: undefined on a relay-storage node.\<close>

definition itemOf :: "Node \<Rightarrow> Item option" where
  "itemOf n = (if kind n = TransferContainerNode then None else Some (item n))"

subsection \<open>The registry\<close>

definition newNode :: "NodeKind \<Rightarrow> Item \<Rightarrow> Node" where
  "newNode k i =
     \<lparr>kind = k, item = i, items = [], isSplit = False, splitFraction = 1, rate = 0,
      maintain = 0, producers = [], consumers = []\<rparr>"

text \<open>Modelled from the spec: the registry adds nodes and never removes one.\<close>

definition createNode :: "Node \<Rightarrow> FactoryGraph \<Rightarrow> nat \<times> FactoryGraph" where
  "createNode n g = (length g, g @ [n])"

definition createContainer :: "Item \<Rightarrow> FactoryGraph \<Rightarrow> nat \<times> FactoryGraph" where
  "createContainer i g = createNode (newNode ContainerNode i) g"

definition createSplitContainer :: "Item \<Rightarrow> rat \<Rightarrow> FactoryGraph \<Rightarrow> nat \<times> FactoryGraph" where
  "createSplitContainer i s g =
     createNode ((newNode ContainerNode i)\<lparr>isSplit := True, splitFraction := s\<rparr>) g"

definition createIndustry :: "Item \<Rightarrow> FactoryGraph \<Rightarrow> nat \<times> FactoryGraph" where
  "createIndustry i g = createNode (newNode IndustryNode i) g"

definition createTransferUnit :: "Item \<Rightarrow> FactoryGraph \<Rightarrow> nat \<times> FactoryGraph" where
  "createTransferUnit i g = createNode (newNode TransferNode i) g"

definition createTransferContainer :: "Item list \<Rightarrow> FactoryGraph \<Rightarrow> nat \<times> FactoryGraph" where
  "createTransferContainer is g = createNode ((newNode TransferContainerNode 0)\<lparr>items := is\<rparr>) g"

definition createOutput :: "Item \<Rightarrow> PerMinute \<Rightarrow> rat \<Rightarrow> FactoryGraph \<Rightarrow> nat \<times> FactoryGraph" where
  "createOutput i r m g = createNode ((newNode OutputNode i)\<lparr>rate := r, maintain := m\<rparr>) g"

text \<open>Modelled from the spec: registry lookups return nodes in creation order.\<close>

definition nodesOfKind :: "NodeKind \<Rightarrow> FactoryGraph \<Rightarrow> nat list" where
  "nodesOfKind k g = filter (\<lambda>n. kind (g ! n) = k) [0..<length g]"

definition getContainers :: "Item \<Rightarrow> FactoryGraph \<Rightarrow> nat list" where
  "getContainers i g = filter (\<lambda>n. item (g ! n) = i) (nodesOfKind ContainerNode g)"

definition getTransferUnits :: "Item \<Rightarrow> FactoryGraph \<Rightarrow> nat list" where
  "getTransferUnits i g = filter (\<lambda>n. item (g ! n) = i) (nodesOfKind TransferNode g)"

text \<open>
  The source's comment on the call: all transfer containers containing a subset of the
  industry ingredients.
\<close>

definition getTransferContainers :: "Item list \<Rightarrow> FactoryGraph \<Rightarrow> nat list" where
  "getTransferContainers is g =
     filter (\<lambda>n. list_all (\<lambda>i. i \<in> set is) (items (g ! n))) (nodesOfKind TransferContainerNode g)"

subsection \<open>Links\<close>

definition setAdd :: "nat \<Rightarrow> nat list \<Rightarrow> nat list" where
  "setAdd x xs = (if x \<in> set xs then xs else xs @ [x])"

definition addLink :: "nat \<Rightarrow> nat \<Rightarrow> FactoryGraph \<Rightarrow> FactoryGraph" where
  "addLink src dst g =
     (let g1 = g[src := (g ! src)\<lparr>consumers := setAdd dst (consumers (g ! src))\<rparr>]
      in g1[dst := (g1 ! dst)\<lparr>producers := setAdd src (producers (g1 ! dst))\<rparr>])"

text \<open>
  Modelled from the spec: the link-attach operations are the only mutators; each checks the
  capacity predicates of the two nodes before mutating and fails with \<open>CapacityExceeded\<close>
  if a limit would be violated.
\<close>

definition attach :: "Config \<Rightarrow> nat \<Rightarrow> nat \<Rightarrow> FactoryGraph \<Rightarrow> error + FactoryGraph" where
  "attach cfg src dst g =
     (if canAddOutgoingLinks cfg (g ! src) 1 \<and> canAddIncomingLinks cfg (g ! dst) 1
      then Inr (addLink src dst g) else Inl CapacityExceeded)"

text \<open>\<^verbatim>\<open>node.outputTo(target)\<close> and \<^verbatim>\<open>node.takeFrom(source)\<close>.\<close>

definition outputTo :: "Config \<Rightarrow> nat \<Rightarrow> nat \<Rightarrow> FactoryGraph \<Rightarrow> error + FactoryGraph" where
  "outputTo cfg node target g = attach cfg node target g"

definition takeFrom :: "Config \<Rightarrow> nat \<Rightarrow> nat \<Rightarrow> FactoryGraph \<Rightarrow> error + FactoryGraph" where
  "takeFrom cfg node source g = attach cfg source node g"

text \<open>
  \<^verbatim>\<open>container.consumers.delete(industry); industry.inputs.delete(container)\<close> of
  \<^verbatim>\<open>handleIndustryLinks\<close>.
\<close>

definition detach :: "nat \<Rightarrow> nat \<Rightarrow> FactoryGraph \<Rightarrow> FactoryGraph" where
  "detach container industry g =
     (let g1 = g[container := (g ! container)\<lparr>consumers := removeAll industry (consumers (g ! container))\<rparr>]
      in g1[industry := (g1 ! industry)\<lparr>producers := removeAll container (producers (g1 ! industry))\<rparr>])"

section \<open>produce\<close>

text \<open>The quantity one fabrication node makes per minute, \<^verbatim>\<open>recipe.product.quantity / recipe.time\<close>.\<close>

definition productRate :: "Recipe \<Rightarrow> error + PerMinute" where
  "productRate r =
     (if time r = 0 \<or> snd (product r) = 0 then Inl NonFinite else Inr (snd (product r) / time r))"

text \<open>
  The loop of lines 75 to 80: the link share \<^verbatim>\<open>numLinks\<close> of each split container, in
  creation order.
\<close>

fun splitLinks :: "nat \<Rightarrow> int \<Rightarrow> int \<Rightarrow> int list" where
  "splitLinks 0 evenLinks linksRemaining = []"
| "splitLinks (Suc k) evenLinks linksRemaining =
     (let numLinks = min evenLinks linksRemaining
      in numLinks # splitLinks k evenLinks (linksRemaining - numLinks))"

fun createSplitContainers :: "Item \<Rightarrow> rat list \<Rightarrow> FactoryGraph \<Rightarrow> nat list \<times> FactoryGraph" where
  "createSplitContainers i [] g = ([], g)"
| "createSplitContainers i (s # ss) g =
     (case createSplitContainer i s g of (c, g1) \<Rightarrow>
        (case createSplitContainers i ss g1 of (cs, g2) \<Rightarrow> (c # cs, g2)))"

text \<open>
  Lines 66 to 84, for \<open>additionalIndustries\<close> already computed: the new output containers.
  With a container limit of 0 the source's \<^verbatim>\<open>numContainers\<close> is infinite.
\<close>

definition newOutputs :: "Config \<Rightarrow> Item \<Rightarrow> int \<Rightarrow> FactoryGraph \<Rightarrow> error + nat list \<times> FactoryGraph" where
  "newOutputs cfg i additionalIndustries g =
     (if additionalIndustries > int (MAX_CONTAINER_LINKS cfg) then
        (if MAX_CONTAINER_LINKS cfg = 0 then Inl NonFinite
         else
           (let numContainers = \<lceil>rat_of_int additionalIndustries / rat_of_nat (MAX_CONTAINER_LINKS cfg)\<rceil>;
                evenLinks = \<lceil>rat_of_int additionalIndustries / rat_of_int numContainers\<rceil>;
                shares = splitLinks (nat numContainers) evenLinks additionalIndustries
            in Inr (createSplitContainers i
                      (map (\<lambda>numLinks. rat_of_int numLinks / rat_of_int additionalIndustries) shares) g)))
      else (case createContainer i g of (c, g1) \<Rightarrow> Inr ([c], g1)))"

text \<open>
  Lines 50 to 84: the output containers and the number of industries to add. The first
  existing container that can take the industries it still needs is used; otherwise new
  containers are created for the whole rate.
\<close>

definition selectOutputs ::
  "Config \<Rightarrow> RecipeDB \<Rightarrow> Item \<Rightarrow> PerMinute \<Rightarrow> PerMinute \<Rightarrow> nat list \<Rightarrow> FactoryGraph
     \<Rightarrow> error + nat list \<times> int \<times> FactoryGraph" where
  "selectOutputs cfg db i r perIndustry containers g =
     (let needed = (\<lambda>c. \<lceil>(r + egress cfg db g c - ingress cfg db g c) / perIndustry\<rceil>)
      in case find (\<lambda>c. canAddIncomingLinks cfg (g ! c) (needed c) \<and>
                         canAddOutgoingLinks cfg (g ! c) 1) containers of
           Some c \<Rightarrow> Inr ([c], needed c, g)
         | None \<Rightarrow>
             (let additionalIndustries = \<lceil>r / perIndustry\<rceil>
              in case newOutputs cfg i additionalIndustries g of
                   Inl e \<Rightarrow> Inl e
                 | Inr (outputs, g1) \<Rightarrow> Inr (outputs, additionalIndustries, g1)))"

text \<open>\<^verbatim>\<open>for (const input of inputs) industry.takeFrom(input)\<close>.\<close>

fun takeFromAll :: "Config \<Rightarrow> nat \<Rightarrow> nat list \<Rightarrow> FactoryGraph \<Rightarrow> error + FactoryGraph" where
  "takeFromAll cfg industry [] g = Inr g"
| "takeFromAll cfg industry (input # inputs) g =
     (case takeFrom cfg industry input g of
        Inl e \<Rightarrow> Inl e
      | Inr g1 \<Rightarrow> takeFromAll cfg industry inputs g1)"

text \<open>
  The loop over the ingredients of a recipe (lines 90 to 95 and 293 to 298); \<open>rec\<close> is the
  recursive call of \<^verbatim>\<open>produce\<close>.
\<close>

fun buildIngredients ::
  "(Item \<Rightarrow> PerMinute \<Rightarrow> FactoryGraph \<Rightarrow> error + nat list \<times> FactoryGraph) \<Rightarrow> Config \<Rightarrow> rat \<Rightarrow> nat
     \<Rightarrow> (Item \<times> rat) list \<Rightarrow> FactoryGraph \<Rightarrow> error + FactoryGraph" where
  "buildIngredients rec cfg t industry [] g = Inr g"
| "buildIngredients rec cfg t industry (ingredient # rest) g =
     (case rec (fst ingredient) (snd ingredient / t) g of
        Inl e \<Rightarrow> Inl e
      | Inr (inputs, g1) \<Rightarrow>
          (case takeFromAll cfg industry inputs g1 of
             Inl e \<Rightarrow> Inl e
           | Inr g2 \<Rightarrow> buildIngredients rec cfg t industry rest g2))"

text \<open>Lines 86 to 96: industry number \<open>i\<close> and the \<open>k\<close> after it.\<close>

fun addIndustries ::
  "(Item \<Rightarrow> PerMinute \<Rightarrow> FactoryGraph \<Rightarrow> error + nat list \<times> FactoryGraph) \<Rightarrow> Config \<Rightarrow> Recipe \<Rightarrow> Item
     \<Rightarrow> nat list \<Rightarrow> nat \<Rightarrow> nat \<Rightarrow> FactoryGraph \<Rightarrow> error + FactoryGraph" where
  "addIndustries rec cfg recipe i outputs n 0 g = Inr g"
| "addIndustries rec cfg recipe i outputs n (Suc k) g =
     (case createIndustry i g of (industry, g1) \<Rightarrow>
        (case outputTo cfg industry (outputs ! (n mod length outputs)) g1 of
           Inl e \<Rightarrow> Inl e
         | Inr g2 \<Rightarrow>
             (case buildIngredients rec cfg (time recipe) industry (ingredients recipe) g2 of
                Inl e \<Rightarrow> Inl e
              | Inr g3 \<Rightarrow> addIndustries rec cfg recipe i outputs (Suc n) k g3)))"

definition produceBody ::
  "(Item \<Rightarrow> PerMinute \<Rightarrow> FactoryGraph \<Rightarrow> error + nat list \<times> FactoryGraph) \<Rightarrow> Config \<Rightarrow> RecipeDB
     \<Rightarrow> Item \<Rightarrow> PerMinute \<Rightarrow> FactoryGraph \<Rightarrow> error + nat list \<times> FactoryGraph" where
  "produceBody rec cfg db i r g =
     (let containers = getContainers i g in
      if isOre cfg i then
        (case find (\<lambda>c. canAddOutgoingLinks cfg (g ! c) 1) containers of
           Some c \<Rightarrow> Inr ([c], g)
         | None \<Rightarrow> (case createContainer i g of (c, g1) \<Rightarrow> Inr ([c], g1)))
      else
        (case find (\<lambda>c. egress cfg db g c + r < ingress cfg db g c \<and>
                        canAddOutgoingLinks cfg (g ! c) 1) containers of
           Some c \<Rightarrow> Inr ([c], g)
         | None \<Rightarrow>
             (case findRecipe db i of
                Inl e \<Rightarrow> Inl e
              | Inr recipe \<Rightarrow>
                  (case productRate recipe of
                     Inl e \<Rightarrow> Inl e
                   | Inr perIndustry \<Rightarrow>
                       (case selectOutputs cfg db i r perIndustry containers g of
                          Inl e \<Rightarrow> Inl e
                        | Inr (outputs, additionalIndustries, g1) \<Rightarrow>
                            (case addIndustries rec cfg recipe i outputs 0
                                    (nat additionalIndustries) g1 of
                               Inl e \<Rightarrow> Inl e
                             | Inr g2 \<Rightarrow> Inr (outputs, g2)))))))"

text \<open>
  \<^verbatim>\<open>produce(item, rate, factory)\<close>. The recursion follows the recipes and need not end (a
  recipe may need its own product), so it is bounded by fuel: the depth of the recursion.
\<close>

primrec produce ::
  "Config \<Rightarrow> RecipeDB \<Rightarrow> nat \<Rightarrow> Item \<Rightarrow> PerMinute \<Rightarrow> FactoryGraph \<Rightarrow> error + nat list \<times> FactoryGraph" where
  "produce cfg db 0 = (\<lambda>i r g. Inl OutOfFuel)"
| "produce cfg db (Suc fuel) = produceBody (produce cfg db fuel) cfg db"

section \<open>handleByproducts\<close>

text \<open>Lines 114 to 119: some consumer of the container has the byproduct's item.\<close>

definition isConsumed :: "FactoryGraph \<Rightarrow> nat \<Rightarrow> Item \<Rightarrow> bool" where
  "isConsumed g container b =
     list_ex (\<lambda>consumer. itemOf (g ! consumer) = Some b) (consumers (g ! container))"

text \<open>
  The two search loops (lines 124 to 128 and 135 to 139) assign on every fitting node and
  have no \<^verbatim>\<open>break\<close>: the variable ends as the last fitting node, or stays undefined.
\<close>

definition keepFitting :: "(nat \<Rightarrow> bool) \<Rightarrow> nat list \<Rightarrow> nat option" where
  "keepFitting fits ns = foldl (\<lambda>kept n. if fits n then Some n else kept) None ns"

definition selectTransfer :: "Config \<Rightarrow> Item \<Rightarrow> FactoryGraph \<Rightarrow> nat option" where
  "selectTransfer cfg b g =
     keepFitting (\<lambda>itemTransfer. canAddIncomingLinks cfg (g ! itemTransfer) 1) (getTransferUnits b g)"

definition selectOutput :: "Config \<Rightarrow> Item \<Rightarrow> FactoryGraph \<Rightarrow> nat option" where
  "selectOutput cfg b g =
     keepFitting (\<lambda>itemContainer. canAddIncomingLinks cfg (g ! itemContainer) 1) (getContainers b g)"

text \<open>Lines 113 to 147, for one container and one byproduct item.\<close>

definition handleByproduct :: "Config \<Rightarrow> nat \<Rightarrow> Item \<Rightarrow> FactoryGraph \<Rightarrow> error + FactoryGraph" where
  "handleByproduct cfg container b g =
     (if isConsumed g container b then Inr g
      else
        (case selectTransfer cfg b g of
           Some transfer \<Rightarrow> takeFrom cfg transfer container g
         | None \<Rightarrow>
             (case createTransferUnit b g of (transfer, g1) \<Rightarrow>
                (case (case selectOutput cfg b g1 of
                         Some out \<Rightarrow> (out, g1)
                       | None \<Rightarrow> createContainer b g1) of
                   (out, g2) \<Rightarrow>
                     (case outputTo cfg transfer out g2 of
                        Inl e \<Rightarrow> Inl e
                      | Inr g3 \<Rightarrow> takeFrom cfg transfer container g3)))))"

fun handleByproductList ::
  "Config \<Rightarrow> nat \<Rightarrow> (Item \<times> rat) list \<Rightarrow> FactoryGraph \<Rightarrow> error + FactoryGraph" where
  "handleByproductList cfg container [] g = Inr g"
| "handleByproductList cfg container (byproduct # rest) g =
     (case handleByproduct cfg container (fst byproduct) g of
        Inl e \<Rightarrow> Inl e
      | Inr g1 \<Rightarrow> handleByproductList cfg container rest g1)"

text \<open>Lines 107 to 148: the body of the loop over the containers.\<close>

definition handleContainer :: "Config \<Rightarrow> RecipeDB \<Rightarrow> nat \<Rightarrow> FactoryGraph \<Rightarrow> error + FactoryGraph" where
  "handleContainer cfg db container g =
     (if isOre cfg (item (g ! container)) then Inr g
      else
        (case findRecipe db (item (g ! container)) of
           Inl e \<Rightarrow> Inl e
         | Inr recipe \<Rightarrow> handleByproductList cfg container (byproducts recipe) g))"

text \<open>
  Modelled from the spec: \<^verbatim>\<open>factory.containers\<close> is the registry's own collection, in
  creation order, so the \<^verbatim>\<open>for ... of\<close> over it also reaches the containers that the loop
  body creates. The loop walks the nodes by position and skips those that are not
  containers; as it may create a container on every round it is bounded by fuel.
\<close>

fun byproductLoop :: "Config \<Rightarrow> RecipeDB \<Rightarrow> nat \<Rightarrow> nat \<Rightarrow> FactoryGraph \<Rightarrow> error + FactoryGraph" where
  "byproductLoop cfg db 0 n g = (if length g \<le> n then Inr g else Inl OutOfFuel)"
| "byproductLoop cfg db (Suc fuel) n g =
     (if length g \<le> n then Inr g
      else if kind (g ! n) = ContainerNode then
        (case handleContainer cfg db n g of
           Inl e \<Rightarrow> Inl e
         | Inr g1 \<Rightarrow> byproductLoop cfg db fuel (Suc n) g1)
      else byproductLoop cfg db fuel (Suc n) g)"

definition handleByproducts :: "Config \<Rightarrow> RecipeDB \<Rightarrow> nat \<Rightarrow> FactoryGraph \<Rightarrow> error + FactoryGraph" where
  "handleByproducts cfg db fuel g = byproductLoop cfg db fuel 0 g"

section \<open>handleIndustryLinks\<close>

text \<open>Lines 177 to 191: the three checks on a candidate transfer container.\<close>

definition usable :: "Config \<Rightarrow> FactoryGraph \<Rightarrow> int \<Rightarrow> nat \<Rightarrow> bool" where
  "usable cfg g exceedingLinks checkTransferContainer =
     (\<not> int (length (items (g ! checkTransferContainer))) < exceedingLinks + 1 \<and>
      canAddOutgoingLinks cfg (g ! checkTransferContainer) 1 \<and>
      \<not> list_ex (\<lambda>node. \<not> canAddIncomingLinks cfg (g ! node) 1)
           (producers (g ! checkTransferContainer)))"

text \<open>Lines 204 to 207.\<close>

fun addTransferUnits :: "Config \<Rightarrow> nat \<Rightarrow> Item list \<Rightarrow> FactoryGraph \<Rightarrow> error + FactoryGraph" where
  "addTransferUnits cfg transferContainer [] g = Inr g"
| "addTransferUnits cfg transferContainer (i # is) g =
     (case createTransferUnit i g of (transferUnit, g1) \<Rightarrow>
        (case outputTo cfg transferUnit transferContainer g1 of
           Inl e \<Rightarrow> Inl e
         | Inr g2 \<Rightarrow> addTransferUnits cfg transferContainer is g2))"

text \<open>Lines 170 to 208: the first usable transfer container, or a new one.\<close>

definition chooseTransferContainer ::
  "Config \<Rightarrow> Item list \<Rightarrow> int \<Rightarrow> FactoryGraph \<Rightarrow> error + nat \<times> FactoryGraph" where
  "chooseTransferContainer cfg ingredientItems exceedingLinks g =
     (case find (usable cfg g exceedingLinks) (getTransferContainers ingredientItems g) of
        Some transferContainer \<Rightarrow> Inr (transferContainer, g)
      | None \<Rightarrow>
          (let is = take (nat (exceedingLinks + 1)) ingredientItems
           in case createTransferContainer is g of (transferContainer, g1) \<Rightarrow>
                (case addTransferUnits cfg transferContainer is g1 of
                   Inl e \<Rightarrow> Inl e
                 | Inr g2 \<Rightarrow> Inr (transferContainer, g2))))"

text \<open>
  Lines 214 to 225: the first input of the industry that is not a transfer container and
  has the transfer unit's item.
\<close>

definition directInput :: "FactoryGraph \<Rightarrow> nat \<Rightarrow> nat \<Rightarrow> nat option" where
  "directInput g industry transferUnit =
     find (\<lambda>container. kind (g ! container) \<noteq> TransferContainerNode \<and>
                        itemOf (g ! container) = itemOf (g ! transferUnit))
       (producers (g ! industry))"

text \<open>
  Lines 212 to 231, over the producers of the transfer container. The loop body changes the
  links of the industry, of a container and of the transfer unit; the transfer container is
  none of them in a graph that the generator built, so its producers stay as they were when
  the loop began.
\<close>

fun rewire :: "Config \<Rightarrow> nat \<Rightarrow> nat list \<Rightarrow> FactoryGraph \<Rightarrow> error + FactoryGraph" where
  "rewire cfg industry [] g = Inr g"
| "rewire cfg industry (transferUnit # rest) g =
     (case directInput g industry transferUnit of
        None \<Rightarrow> Inl UnableToTransfer
      | Some container \<Rightarrow>
          (case takeFrom cfg transferUnit container (detach container industry g) of
             Inl e \<Rightarrow> Inl e
           | Inr g1 \<Rightarrow> rewire cfg industry rest g1))"

text \<open>Lines 210 to 234: the rewiring, then the link from the transfer container.\<close>

definition relink :: "Config \<Rightarrow> nat \<Rightarrow> nat \<Rightarrow> FactoryGraph \<Rightarrow> error + FactoryGraph" where
  "relink cfg industry transferContainer g =
     (case rewire cfg industry (producers (g ! transferContainer)) g of
        Inl e \<Rightarrow> Inl e
      | Inr g1 \<Rightarrow> takeFrom cfg industry transferContainer g1)"

text \<open>
  Lines 160 to 235: the body of the loop over the industries. \<^verbatim>\<open>recipe.ingredients.sort\<close>
  sorts the array of the recipe itself, so the database holds the sorted list afterwards;
  the sort is stable and ascending by quantity.
\<close>

definition handleIndustry ::
  "Config \<Rightarrow> nat \<Rightarrow> FactoryGraph \<Rightarrow> RecipeDB \<Rightarrow> (error + FactoryGraph) \<times> RecipeDB" where
  "handleIndustry cfg industry g db =
     (case findRecipe db (item (g ! industry)) of
        Inl e \<Rightarrow> (Inl e, db)
      | Inr recipe \<Rightarrow>
          (let recipeIngredients = sort_key snd (ingredients recipe);
               db1 = db(item (g ! industry) \<mapsto> recipe\<lparr>ingredients := recipeIngredients\<rparr>);
               ingredientItems = map fst recipeIngredients;
               exceedingLinks = int (incomingLinkCount (g ! industry)) - int (MAX_INDUSTRY_LINKS cfg)
           in if exceedingLinks > 0 then
                (case chooseTransferContainer cfg ingredientItems exceedingLinks g of
                   Inl e \<Rightarrow> (Inl e, db1)
                 | Inr (transferContainer, g1) \<Rightarrow> (relink cfg industry transferContainer g1, db1))
              else (Inr g, db1)))"

fun industryLoop ::
  "Config \<Rightarrow> nat list \<Rightarrow> FactoryGraph \<Rightarrow> RecipeDB \<Rightarrow> (error + FactoryGraph) \<times> RecipeDB" where
  "industryLoop cfg [] g db = (Inr g, db)"
| "industryLoop cfg (industry # rest) g db =
     (case handleIndustry cfg industry g db of
        (Inl e, db1) \<Rightarrow> (Inl e, db1)
      | (Inr g1, db1) \<Rightarrow> industryLoop cfg rest g1 db1)"

text \<open>
  The pass creates no industry, so the industries it visits are those of the graph it is
  given, in creation order.
\<close>

definition handleIndustryLinks ::
  "Config \<Rightarrow> FactoryGraph \<Rightarrow> RecipeDB \<Rightarrow> (error + FactoryGraph) \<times> RecipeDB" where
  "handleIndustryLinks cfg g db = industryLoop cfg (nodesOfKind IndustryNode g) g db"

section \<open>sanityCheck\<close>

definition checkContainer :: "Config \<Rightarrow> RecipeDB \<Rightarrow> FactoryGraph \<Rightarrow> nat \<Rightarrow> error + unit" where
  "checkContainer cfg db g container =
     (if incomingLinkCount (g ! container) > MAX_CONTAINER_LINKS cfg then Inl ContainerIncomingLimit
      else if outgoingLinkCount (g ! container) > MAX_CONTAINER_LINKS cfg then Inl ContainerOutgoingLimit
      else if egress cfg db g container > ingress cfg db g container then Inl EgressExceedsIngress
      else if isSplit (g ! container) \<and> outgoingLinkCount (g ! container) > 1 then Inl SplitOutgoing
      else Inr ())"

definition checkIndustry :: "Config \<Rightarrow> FactoryGraph \<Rightarrow> nat \<Rightarrow> error + unit" where
  "checkIndustry cfg g industry =
     (if incomingLinkCount (g ! industry) > MAX_INDUSTRY_LINKS cfg then Inl IndustryIncomingLimit
      else Inr ())"

fun checkEach :: "(nat \<Rightarrow> error + unit) \<Rightarrow> nat list \<Rightarrow> error + unit" where
  "checkEach check [] = Inr ()"
| "checkEach check (n # ns) = (case check n of Inl e \<Rightarrow> Inl e | Inr u \<Rightarrow> checkEach check ns)"

definition sanityCheck :: "Config \<Rightarrow> RecipeDB \<Rightarrow> FactoryGraph \<Rightarrow> error + unit" where
  "sanityCheck cfg db g =
     (case checkEach (checkContainer cfg db g) (nodesOfKind ContainerNode g) of
        Inl e \<Rightarrow> Inl e
      | Inr u \<Rightarrow> checkEach (checkIndustry cfg g) (nodesOfKind IndustryNode g))"

section \<open>buildFactory\<close>

text \<open>Lines 288 to 299: the \<open>count\<close> industries that feed an output node.\<close>

fun addAssemblers ::
  "(Item \<Rightarrow> PerMinute \<Rightarrow> FactoryGraph \<Rightarrow> error + nat list \<times> FactoryGraph) \<Rightarrow> Config \<Rightarrow> Recipe \<Rightarrow> Item
     \<Rightarrow> nat \<Rightarrow> nat \<Rightarrow> FactoryGraph \<Rightarrow> error + FactoryGraph" where
  "addAssemblers rec cfg recipe i out 0 g = Inr g"
| "addAssemblers rec cfg recipe i out (Suc k) g =
     (case createIndustry i g of (industry, g1) \<Rightarrow>
        (case outputTo cfg industry out g1 of
           Inl e \<Rightarrow> Inl e
         | Inr g2 \<Rightarrow>
             (case buildIngredients rec cfg (time recipe) industry (ingredients recipe) g2 of
                Inl e \<Rightarrow> Inl e
              | Inr g3 \<Rightarrow> addAssemblers rec cfg recipe i out k g3)))"

text \<open>
  Lines 282 to 300. The requirements map is iterated in insertion order: a list of
  (item, count, maintain); the count \<open>cnt\<close> is a number of assemblers, a natural number.
\<close>

fun addRequirements ::
  "Config \<Rightarrow> RecipeDB \<Rightarrow> nat \<Rightarrow> (Item \<times> nat \<times> rat) list \<Rightarrow> FactoryGraph \<Rightarrow> error + FactoryGraph" where
  "addRequirements cfg db fuel [] g = Inr g"
| "addRequirements cfg db fuel (requirement # rest) g =
     (case requirement of (i, cnt, maintained) \<Rightarrow>
        (case findRecipe db i of
           Inl e \<Rightarrow> Inl e
         | Inr recipe \<Rightarrow>
             (if time recipe = 0 then Inl NonFinite
              else
                (case createOutput i (snd (product recipe) / time recipe * of_nat cnt) maintained g of
                   (out, g1) \<Rightarrow>
                     (case addAssemblers (produce cfg db fuel) cfg recipe i out cnt g1 of
                        Inl e \<Rightarrow> Inl e
                      | Inr g2 \<Rightarrow> addRequirements cfg db fuel rest g2)))))"

text \<open>
  The graph as it stands when \<^verbatim>\<open>sanityCheck\<close> is called (lines 281 to 304), with the
  database as the passes leave it.
\<close>

definition synthesise ::
  "Config \<Rightarrow> RecipeDB \<Rightarrow> nat \<Rightarrow> (Item \<times> nat \<times> rat) list \<Rightarrow> (error + FactoryGraph) \<times> RecipeDB" where
  "synthesise cfg db fuel requirements =
     (case addRequirements cfg db fuel requirements [] of
        Inl e \<Rightarrow> (Inl e, db)
      | Inr g \<Rightarrow>
          (case handleByproducts cfg db fuel g of
             Inl e \<Rightarrow> (Inl e, db)
           | Inr g1 \<Rightarrow> handleIndustryLinks cfg g1 db))"

definition buildFactory ::
  "Config \<Rightarrow> RecipeDB \<Rightarrow> nat \<Rightarrow> (Item \<times> nat \<times> rat) list \<Rightarrow> (error + FactoryGraph) \<times> RecipeDB" where
  "buildFactory cfg db fuel requirements =
     (case synthesise cfg db fuel requirements of
        (Inl e, db1) \<Rightarrow> (Inl e, db1)
      | (Inr g, db1) \<Rightarrow>
          (case sanityCheck cfg db1 g of
             Inl e \<Rightarrow> (Inl e, db1)
           | Inr u \<Rightarrow> (Inr g, db1)))"

section \<open>Configurations to run the generator on\<close>

text \<open>
  Modelled from the spec: a storage node, a relay and a relay-storage node take at most
  \<open>m\<close> links each way; a fabrication node is not limited when a link is attached (its limit
  is enforced afterwards by \<^verbatim>\<open>handleIndustryLinks\<close>), nor is an output node.
\<close>

definition limited :: "Node \<Rightarrow> bool" where
  "limited n = (kind n = ContainerNode \<or> kind n = TransferNode \<or> kind n = TransferContainerNode)"

definition boundedIncoming :: "nat \<Rightarrow> Node \<Rightarrow> int \<Rightarrow> bool" where
  "boundedIncoming m n cnt = (if limited n then int (incomingLinkCount n) + cnt \<le> int m else True)"

definition boundedOutgoing :: "nat \<Rightarrow> Node \<Rightarrow> int \<Rightarrow> bool" where
  "boundedOutgoing m n cnt = (if limited n then int (outgoingLinkCount n) + cnt \<le> int m else True)"

text \<open>
  Modelled from the spec: ingress and egress are the sums of the incoming and outgoing flow
  rates. A fabrication node delivers its recipe's product quantity per time and draws each
  ingredient's quantity per time, the rates \<^verbatim>\<open>produce\<close> itself reckons with; a split
  storage node answers for its split fraction of the demand; an ore is supplied from
  outside, so the ingress of an ore's storage node is its egress. The specification gives
  no flow for the links of a relay; they count as 0 here.
\<close>

definition outputFlow :: "RecipeDB \<Rightarrow> Node \<Rightarrow> PerMinute" where
  "outputFlow db n =
     (if kind n = IndustryNode then
        (case db (item n) of None \<Rightarrow> 0 | Some r \<Rightarrow> snd (product r) / time r)
      else 0)"

definition inputFlow :: "RecipeDB \<Rightarrow> Node \<Rightarrow> Item \<Rightarrow> PerMinute" where
  "inputFlow db n i =
     (if kind n = IndustryNode then
        (case db (item n) of
           None \<Rightarrow> 0
         | Some r \<Rightarrow> sum_list (map (\<lambda>x. snd x / time r) (filter (\<lambda>x. fst x = i) (ingredients r))))
      else 0)"

definition stdEgress :: "RecipeDB \<Rightarrow> FactoryGraph \<Rightarrow> nat \<Rightarrow> PerMinute" where
  "stdEgress db g c =
     (let demand = sum_list (map (\<lambda>k. inputFlow db (g ! k) (item (g ! c))) (consumers (g ! c)))
      in if isSplit (g ! c) then splitFraction (g ! c) * demand else demand)"

definition stdIngress :: "(Item \<Rightarrow> bool) \<Rightarrow> RecipeDB \<Rightarrow> FactoryGraph \<Rightarrow> nat \<Rightarrow> PerMinute" where
  "stdIngress ore db g c =
     (if ore (item (g ! c)) then stdEgress db g c
      else sum_list (map (\<lambda>p. outputFlow db (g ! p)) (producers (g ! c))))"

definition limitConfig :: "(Item \<Rightarrow> bool) \<Rightarrow> nat \<Rightarrow> nat \<Rightarrow> Config" where
  "limitConfig ore maxContainer maxIndustry =
     \<lparr>isOre = ore, MAX_CONTAINER_LINKS = maxContainer, MAX_INDUSTRY_LINKS = maxIndustry,
      canAddIncomingLinks = boundedIncoming maxContainer,
      canAddOutgoingLinks = boundedOutgoing maxContainer,
      ingress = stdIngress ore, egress = stdEgress\<rparr>"

text \<open>
  Modelled from the spec: the specification's illustrative limit of 10 links for a storage
  node and of 7 for a fabrication node (``more than 7 incoming links'' in the source's comment on
  \<^verbatim>\<open>handleIndustryLinks\<close>).
\<close>

definition stdConfig :: "(Item \<Rightarrow> bool) \<Rightarrow> Config" where
  "stdConfig ore = limitConfig ore 10 7"

section \<open>Example databases\<close>

text \<open>Item 0 is the only ore.\<close>

definition ore0 :: "Item \<Rightarrow> bool" where
  "ore0 i = (i = 0)"

text \<open>
  Item 1 is made from one ore; item 2 from ten of item 1 and one ore, declared in this order.
  All quantities and times are whole numbers, so the source's doubles are exact.
\<close>

definition chainDB :: RecipeDB where
  "chainDB =
     [1 \<mapsto> \<lparr>product = (1, 1), ingredients = [(0, 1)], byproducts = [], time = 1\<rparr>,
      2 \<mapsto> \<lparr>product = (2, 1), ingredients = [(1, 10), (0, 1)], byproducts = [], time = 1\<rparr>]"

text \<open>Item 1 is made from one ore; item 2 from five of item 1.\<close>

definition fiveDB :: RecipeDB where
  "fiveDB =
     [1 \<mapsto> \<lparr>product = (1, 1), ingredients = [(0, 1)], byproducts = [], time = 1\<rparr>,
      2 \<mapsto> \<lparr>product = (2, 1), ingredients = [(1, 5)], byproducts = [], time = 1\<rparr>]"

text \<open>Items 0 and 4 are the ores.\<close>

definition ore04 :: "Item \<Rightarrow> bool" where
  "ore04 i = (i = 0 \<or> i = 4)"

text \<open>
  Item 1 is made 16 at a time from one ore and leaves ore 4 as a byproduct; item 2 is made
  from one of item 1; item 3 from ten of item 2.
\<close>

definition byproductDB :: RecipeDB where
  "byproductDB =
     [1 \<mapsto> \<lparr>product = (1, 16), ingredients = [(0, 1)], byproducts = [(4, 1)], time = 1\<rparr>,
      2 \<mapsto> \<lparr>product = (2, 1), ingredients = [(1, 1)], byproducts = [], time = 1\<rparr>,
      3 \<mapsto> \<lparr>product = (3, 1), ingredients = [(2, 10)], byproducts = [], time = 1\<rparr>]"

text \<open>
  Item 1 is made from one ore 4; item 5 from one ore 0, leaving ore 4 as a byproduct; item 2
  from ten of item 1, one ore 4 and one of item 5.
\<close>

definition residueDB :: RecipeDB where
  "residueDB =
     [1 \<mapsto> \<lparr>product = (1, 1), ingredients = [(4, 1)], byproducts = [], time = 1\<rparr>,
      5 \<mapsto> \<lparr>product = (5, 1), ingredients = [(0, 1)], byproducts = [(4, 1)], time = 1\<rparr>,
      2 \<mapsto> \<lparr>product = (2, 1), ingredients = [(1, 10), (4, 1), (5, 1)], byproducts = [], time = 1\<rparr>]"

section \<open>Well-formed graphs\<close>

text \<open>
  In the source a link holds a reference to a node object, which is a node of the graph;
  here it holds a position, which must be one of the graph.
\<close>

definition linksClosed :: "FactoryGraph \<Rightarrow> bool" where
  "linksClosed g =
     list_all (\<lambda>n. list_all (\<lambda>k. k < length g) (producers n) \<and>
                    list_all (\<lambda>k. k < length g) (consumers n)) g"

text \<open>A split container that has no consumer.\<close>

definition unserved :: "Node \<Rightarrow> bool" where
  "unserved n = (kind n = ContainerNode \<and> isSplit n \<and> consumers n = [])"

text \<open>
  A graph \<open>g'\<close> extends \<open>g\<close> when it keeps the nodes of \<open>g\<close> with their kind, item and split
  flag, every node keeps the consumers it has in \<open>g\<close>, and no node that \<open>g'\<close> has beyond
  those of \<open>g\<close> is a split container without a consumer.
\<close>

definition extends :: "FactoryGraph \<Rightarrow> FactoryGraph \<Rightarrow> bool" where
  "extends g g' =
     (length g \<le> length g' \<and>
      (\<forall>n<length g. kind (g' ! n) = kind (g ! n) \<and> item (g' ! n) = item (g ! n) \<and>
         isSplit (g' ! n) = isSplit (g ! n) \<and>
         set (consumers (g ! n)) \<subseteq> set (consumers (g' ! n))) \<and>
      (\<forall>n. length g \<le> n \<and> n < length g' \<longrightarrow> \<not> unserved (g' ! n)))"

text \<open>
  The split containers without a consumer are among \<open>S\<close>: the containers that
  \<^verbatim>\<open>produce\<close> has created and not yet handed to its caller.
\<close>

definition splitsServed :: "nat set \<Rightarrow> FactoryGraph \<Rightarrow> bool" where
  "splitsServed S g = (\<forall>c<length g. unserved (g ! c) \<longrightarrow> c \<in> S)"

text \<open>
  A container is reconciled when it holds an ore, or its item has a recipe and each
  byproduct of the recipe is consumed by one of its consumers.
\<close>

definition reconciled :: "Config \<Rightarrow> RecipeDB \<Rightarrow> FactoryGraph \<Rightarrow> nat \<Rightarrow> bool" where
  "reconciled cfg db g c =
     (kind (g ! c) \<noteq> ContainerNode \<or> isOre cfg (item (g ! c)) \<or>
      (case db (item (g ! c)) of
         None \<Rightarrow> False
       | Some r \<Rightarrow> list_all (\<lambda>b. isConsumed g c (fst b)) (byproducts r)))"

section \<open>Direct inputs of an industry\<close>













text \<open>
  What the recursive call of \<^verbatim>\<open>produce\<close> is to keep: from a well-formed graph whose
  unserved split containers are among \<open>S\<close> it returns a well-formed graph whose unserved
  split containers are among \<open>S\<close> and the containers it returns, which are nodes of the graph.
\<close>

definition servesSplits ::
  "(Item \<Rightarrow> PerMinute \<Rightarrow> FactoryGraph \<Rightarrow> error + nat list \<times> FactoryGraph) \<Rightarrow> bool" where
  "servesSplits rec =
     (\<forall>i r g outs g' S. rec i r g = Inr (outs, g') \<longrightarrow> linksClosed g \<longrightarrow> splitsServed S g \<longrightarrow>
        length g \<le> length g' \<and> linksClosed g' \<and> splitsServed (S \<union> set outs) g' \<and>
        (\<forall>c\<in>set outs. c < length g'))"

text \<open>Item 1 is made from one ore; item 2 from twelve of item 1.\<close>

definition twelveDB :: RecipeDB where
  "twelveDB =
     [1 \<mapsto> \<lparr>product = (1, 1), ingredients = [(0, 1)], byproducts = [], time = 1\<rparr>,
      2 \<mapsto> \<lparr>product = (2, 1), ingredients = [(1, 12)], byproducts = [], time = 1\<rparr>]"

section \<open>The validator gates the result\<close>

lemma checkEach_ok: "checkEach check ns = Inr u \<longleftrightarrow> (\<forall>n\<in>set ns. check n = Inr ())"
  by (induction ns) (auto split: sum.splits)

lemma set_nodesOfKind: "set (nodesOfKind k g) = {n. n < length g \<and> kind (g ! n) = k}"
  by (auto simp: nodesOfKind_def)

lemma checkContainer_ok:
  "checkContainer cfg db g c = Inr () \<longleftrightarrow>
     incomingLinkCount (g ! c) \<le> MAX_CONTAINER_LINKS cfg \<and>
     outgoingLinkCount (g ! c) \<le> MAX_CONTAINER_LINKS cfg \<and>
     egress cfg db g c \<le> ingress cfg db g c \<and>
     (isSplit (g ! c) \<longrightarrow> outgoingLinkCount (g ! c) \<le> 1)"
  by (auto simp: checkContainer_def)

lemma checkIndustry_ok:
  "checkIndustry cfg g i = Inr () \<longleftrightarrow> incomingLinkCount (g ! i) \<le> MAX_INDUSTRY_LINKS cfg"
  by (auto simp: checkIndustry_def)

lemma sanityCheck_ok:
  "sanityCheck cfg db g = Inr u \<longleftrightarrow>
     (\<forall>c<length g. kind (g ! c) = ContainerNode \<longrightarrow> checkContainer cfg db g c = Inr ()) \<and>
     (\<forall>i<length g. kind (g ! i) = IndustryNode \<longrightarrow> checkIndustry cfg g i = Inr ())"
proof -
  have "sanityCheck cfg db g = Inr u \<longleftrightarrow>
          checkEach (checkContainer cfg db g) (nodesOfKind ContainerNode g) = Inr () \<and>
          checkEach (checkIndustry cfg g) (nodesOfKind IndustryNode g) = Inr ()"
    by (cases "checkEach (checkContainer cfg db g) (nodesOfKind ContainerNode g)")
       (simp_all add: sanityCheck_def)
  then show ?thesis
    by (auto simp: checkEach_ok set_nodesOfKind)
qed

lemma buildFactory_Inr:
  "fst (buildFactory cfg db fuel rs) = Inr g \<longleftrightarrow>
     fst (synthesise cfg db fuel rs) = Inr g \<and>
     sanityCheck cfg (snd (synthesise cfg db fuel rs)) g = Inr ()"
  by (auto simp: buildFactory_def split: prod.splits sum.splits)

lemma buildFactory_snd: "snd (buildFactory cfg db fuel rs) = snd (synthesise cfg db fuel rs)"
  by (auto simp: buildFactory_def split: prod.splits sum.splits)

lemma buildFactory_cases:
  "(\<exists>e. fst (buildFactory cfg db fuel rs) = Inl e) \<or> (\<exists>g. fst (buildFactory cfg db fuel rs) = Inr g)"
  by (cases "fst (buildFactory cfg db fuel rs)") auto

text \<open>
  C1. Whenever \<^verbatim>\<open>buildFactory\<close> returns a graph, every container of it has at most
  \<open>MAX_CONTAINER_LINKS\<close> incoming and at most as many outgoing links and an egress that does
  not exceed its ingress, and every industry has at most \<open>MAX_INDUSTRY_LINKS\<close> incoming
  links. If one of these fails for some node of the graph that \<^verbatim>\<open>sanityCheck\<close> is given,
  \<^verbatim>\<open>buildFactory\<close> ends in an error and returns no graph.
\<close>

theorem buildFactory_validated:
  "(fst (buildFactory cfg db fuel rs) = Inr g \<longrightarrow>
      (\<forall>c<length g. kind (g ! c) = ContainerNode \<longrightarrow>
         incomingLinkCount (g ! c) \<le> MAX_CONTAINER_LINKS cfg \<and>
         outgoingLinkCount (g ! c) \<le> MAX_CONTAINER_LINKS cfg \<and>
         egress cfg (snd (buildFactory cfg db fuel rs)) g c
           \<le> ingress cfg (snd (buildFactory cfg db fuel rs)) g c) \<and>
      (\<forall>i<length g. kind (g ! i) = IndustryNode \<longrightarrow>
         incomingLinkCount (g ! i) \<le> MAX_INDUSTRY_LINKS cfg)) \<and>
   (fst (synthesise cfg db fuel rs) = Inr g \<and>
      ((\<exists>c<length g. kind (g ! c) = ContainerNode \<and>
          (incomingLinkCount (g ! c) > MAX_CONTAINER_LINKS cfg \<or>
           outgoingLinkCount (g ! c) > MAX_CONTAINER_LINKS cfg \<or>
           egress cfg (snd (synthesise cfg db fuel rs)) g c
             > ingress cfg (snd (synthesise cfg db fuel rs)) g c)) \<or>
       (\<exists>i<length g. kind (g ! i) = IndustryNode \<and>
          incomingLinkCount (g ! i) > MAX_INDUSTRY_LINKS cfg)) \<longrightarrow>
      (\<exists>e. fst (buildFactory cfg db fuel rs) = Inl e))"
proof (intro conjI impI)
  assume ok: "fst (buildFactory cfg db fuel rs) = Inr g"
  then have "sanityCheck cfg (snd (buildFactory cfg db fuel rs)) g = Inr ()"
    by (simp add: buildFactory_Inr buildFactory_snd)
  then show "\<forall>c<length g. kind (g ! c) = ContainerNode \<longrightarrow>
         incomingLinkCount (g ! c) \<le> MAX_CONTAINER_LINKS cfg \<and>
         outgoingLinkCount (g ! c) \<le> MAX_CONTAINER_LINKS cfg \<and>
         egress cfg (snd (buildFactory cfg db fuel rs)) g c
           \<le> ingress cfg (snd (buildFactory cfg db fuel rs)) g c"
    and "\<forall>i<length g. kind (g ! i) = IndustryNode \<longrightarrow>
         incomingLinkCount (g ! i) \<le> MAX_INDUSTRY_LINKS cfg"
    by (simp_all add: sanityCheck_ok checkContainer_ok checkIndustry_ok)
next
  assume bad: "fst (synthesise cfg db fuel rs) = Inr g \<and>
      ((\<exists>c<length g. kind (g ! c) = ContainerNode \<and>
          (incomingLinkCount (g ! c) > MAX_CONTAINER_LINKS cfg \<or>
           outgoingLinkCount (g ! c) > MAX_CONTAINER_LINKS cfg \<or>
           egress cfg (snd (synthesise cfg db fuel rs)) g c
             > ingress cfg (snd (synthesise cfg db fuel rs)) g c)) \<or>
       (\<exists>i<length g. kind (g ! i) = IndustryNode \<and>
          incomingLinkCount (g ! i) > MAX_INDUSTRY_LINKS cfg))"
  have "\<not> sanityCheck cfg (snd (synthesise cfg db fuel rs)) g = Inr ()"
    using bad unfolding sanityCheck_ok checkContainer_ok checkIndustry_ok
    by (metis not_le)
  with bad have "\<forall>g'. fst (buildFactory cfg db fuel rs) \<noteq> Inr g'"
    by (auto simp: buildFactory_Inr)
  with buildFactory_cases [of cfg db fuel rs]
  show "\<exists>e. fst (buildFactory cfg db fuel rs) = Inl e" by blast
qed

text \<open>
  The theorem at work. With the limits 10 and 7, one assembler of item 2 over \<open>chainDB\<close> gives
  a graph of 15 nodes; node 2 is the container of item 1 and node 1 the assembler. With the
  limits 2 and 1, one assembler of item 2 over \<open>fiveDB\<close> is left with three incoming links by
  \<^verbatim>\<open>handleIndustryLinks\<close>, and \<^verbatim>\<open>buildFactory\<close> ends in an error.
\<close>

theorem buildFactory_validated_witness:
  "(\<exists>g. fst (buildFactory (stdConfig ore0) chainDB 30 [(2, 1, 0)]) = Inr g \<and> length g = 15 \<and>
        kind (g ! 2) = ContainerNode \<and> incomingLinkCount (g ! 2) \<le> 10 \<and>
        outgoingLinkCount (g ! 2) \<le> 10 \<and>
        kind (g ! 1) = IndustryNode \<and> incomingLinkCount (g ! 1) \<le> 7) \<and>
   (\<exists>g. fst (synthesise (limitConfig ore0 2 1) fiveDB 30 [(2, 1, 0)]) = Inr g \<and>
        kind (g ! 1) = IndustryNode \<and> incomingLinkCount (g ! 1) = 3 \<and>
        (\<exists>e. fst (buildFactory (limitConfig ore0 2 1) fiveDB 30 [(2, 1, 0)]) = Inl e))"
proof (intro conjI)
  have "case fst (buildFactory (stdConfig ore0) chainDB 30 [(2, 1, 0)]) of
          Inl e \<Rightarrow> False
        | Inr g \<Rightarrow> length g = 15 \<and> kind (g ! 2) = ContainerNode \<and> kind (g ! 1) = IndustryNode"
    by code_simp
  then obtain g where g: "fst (buildFactory (stdConfig ore0) chainDB 30 [(2, 1, 0)]) = Inr g"
      "length g = 15" "kind (g ! 2) = ContainerNode" "kind (g ! 1) = IndustryNode"
    by (auto split: sum.splits)
  have limits: "MAX_CONTAINER_LINKS (stdConfig ore0) = 10" "MAX_INDUSTRY_LINKS (stdConfig ore0) = 7"
    by (simp_all add: stdConfig_def limitConfig_def)
  from buildFactory_validated [of "stdConfig ore0" chainDB 30 "[(2, 1, 0)]" g] g limits
  have "incomingLinkCount (g ! 2) \<le> 10 \<and> outgoingLinkCount (g ! 2) \<le> 10 \<and>
        incomingLinkCount (g ! 1) \<le> 7"
    by simp
  with g show "\<exists>g. fst (buildFactory (stdConfig ore0) chainDB 30 [(2, 1, 0)]) = Inr g \<and>
        length g = 15 \<and> kind (g ! 2) = ContainerNode \<and> incomingLinkCount (g ! 2) \<le> 10 \<and>
        outgoingLinkCount (g ! 2) \<le> 10 \<and>
        kind (g ! 1) = IndustryNode \<and> incomingLinkCount (g ! 1) \<le> 7"
    by blast
next
  have "case fst (synthesise (limitConfig ore0 2 1) fiveDB 30 [(2, 1, 0)]) of
          Inl e \<Rightarrow> False
        | Inr g \<Rightarrow> length g = 15 \<and> kind (g ! 1) = IndustryNode \<and> incomingLinkCount (g ! 1) = 3"
    by code_simp
  then obtain g where g: "fst (synthesise (limitConfig ore0 2 1) fiveDB 30 [(2, 1, 0)]) = Inr g"
      "length g = 15" "kind (g ! 1) = IndustryNode" "incomingLinkCount (g ! 1) = 3"
    by (auto split: sum.splits)
  have limit: "MAX_INDUSTRY_LINKS (limitConfig ore0 2 1) = 1"
    by (simp add: limitConfig_def)
  have "\<exists>i<length g. kind (g ! i) = IndustryNode \<and>
          incomingLinkCount (g ! i) > MAX_INDUSTRY_LINKS (limitConfig ore0 2 1)"
    using g limit by (intro exI [of _ 1]) simp
  with buildFactory_validated [of "limitConfig ore0 2 1" fiveDB 30 "[(2, 1, 0)]" g] g
  have "\<exists>e. fst (buildFactory (limitConfig ore0 2 1) fiveDB 30 [(2, 1, 0)]) = Inl e"
    by blast
  with g show "\<exists>g. fst (synthesise (limitConfig ore0 2 1) fiveDB 30 [(2, 1, 0)]) = Inr g \<and>
        kind (g ! 1) = IndustryNode \<and> incomingLinkCount (g ! 1) = 3 \<and>
        (\<exists>e. fst (buildFactory (limitConfig ore0 2 1) fiveDB 30 [(2, 1, 0)]) = Inl e)"
    by blast
qed

section \<open>The recipe database after a run\<close>

text \<open>
  C9. \<^verbatim>\<open>handleIndustryLinks\<close> sorts \<^verbatim>\<open>recipe.ingredients\<close> in place, so the recipe of
  every industry of the graph is reordered in the database. One assembler of item 2 over
  \<open>chainDB\<close>: \<^verbatim>\<open>buildFactory\<close> returns a graph, and the ingredients of item 2, declared as
  ten of item 1 and then one ore, are afterwards one ore and then ten of item 1.
\<close>

theorem buildFactory_reorders_recipe:
  "\<not> isl (fst (buildFactory (stdConfig ore0) chainDB 30 [(2, 1, 0)])) \<and>
   map_option ingredients (chainDB 2) = Some [(1, 10), (0, 1)] \<and>
   map_option ingredients (snd (buildFactory (stdConfig ore0) chainDB 30 [(2, 1, 0)]) 2)
     = Some [(0, 1), (1, 10)]"
  by code_simp


section \<open>Attaching without asking\<close>

text \<open>
  C5. \<^verbatim>\<open>handleByproducts\<close> asks the transfer unit whether it can take an incoming link,
  but not the container whether it can take an outgoing one (line 146). One assembler of
  item 3 over \<open>byproductDB\<close>: after the requirements are built, node 4 is the container of
  item 1, it has ten outgoing links and its byproduct is not consumed; attaching the transfer
  unit to it fails with \<open>CapacityExceeded\<close>, and so does \<^verbatim>\<open>buildFactory\<close>.
\<close>

theorem handleByproducts_capacity_exceeded:
  "(case addRequirements (stdConfig ore04) byproductDB 30 [(3, 1, 0)] [] of
      Inl e \<Rightarrow> False
    | Inr g \<Rightarrow>
        kind (g ! 4) = ContainerNode \<and> item (g ! 4) = 1 \<and> outgoingLinkCount (g ! 4) = 10 \<and>
        \<not> isConsumed g 4 4 \<and>
        handleByproducts (stdConfig ore04) byproductDB 30 g = Inl CapacityExceeded) \<and>
   fst (buildFactory (stdConfig ore04) byproductDB 30 [(3, 1, 0)]) = Inl CapacityExceeded"
  by code_simp

section \<open>Which node the byproduct search keeps\<close>

lemma keepFitting_append:
  "keepFitting fits (ns @ [n]) = (if fits n then Some n else keepFitting fits ns)"
  by (simp add: keepFitting_def)

lemma keepFitting_last:
  "keepFitting fits ns = (if filter fits ns = [] then None else Some (last (filter fits ns)))"
  by (induction ns rule: rev_induct) (simp_all add: keepFitting_append, simp add: keepFitting_def)

lemma nodesOfKind_append:
  "nodesOfKind k (g @ [n]) = nodesOfKind k g @ (if kind n = k then [length g] else [])"
proof -
  have "filter (\<lambda>i. kind ((g @ [n]) ! i) = k) [0..<length g]
          = filter (\<lambda>i. kind (g ! i) = k) [0..<length g]"
    by (rule filter_cong) (simp_all add: nth_append)
  then show ?thesis
    by (simp add: nodesOfKind_def)
qed

lemma nodesOfKind_less: "n \<in> set (nodesOfKind k g) \<Longrightarrow> n < length g"
  by (simp add: nodesOfKind_def)

lemma getContainers_less: "c \<in> set (getContainers i g) \<Longrightarrow> c < length g"
  by (simp add: getContainers_def nodesOfKind_def)

lemma getContainers_append_other:
  "kind n \<noteq> ContainerNode \<Longrightarrow> getContainers i (g @ [n]) = getContainers i g"
proof -
  assume "kind n \<noteq> ContainerNode"
  then have "getContainers i (g @ [n])
               = filter (\<lambda>c. item ((g @ [n]) ! c) = i) (nodesOfKind ContainerNode g)"
    by (simp add: getContainers_def nodesOfKind_append)
  also have "\<dots> = filter (\<lambda>c. item (g ! c) = i) (nodesOfKind ContainerNode g)"
    by (rule filter_cong) (auto simp: nth_append dest: nodesOfKind_less)
  finally show ?thesis
    by (simp add: getContainers_def)
qed

lemma selectOutput_after_createTransferUnit:
  "selectOutput cfg b (g @ [newNode TransferNode b]) = selectOutput cfg b g"
proof -
  have "filter (\<lambda>c. canAddIncomingLinks cfg ((g @ [newNode TransferNode b]) ! c) 1) (getContainers b g)
          = filter (\<lambda>c. canAddIncomingLinks cfg (g ! c) 1) (getContainers b g)"
    by (rule filter_cong) (auto simp: nth_append dest: getContainers_less)
  then show ?thesis
    by (simp add: selectOutput_def keepFitting_last getContainers_append_other newNode_def)
qed

text \<open>
  C8, as the code has it. For a byproduct that is not yet consumed, \<^verbatim>\<open>handleByproducts\<close>
  takes the last transfer unit of the item, in creation order, that can take an incoming
  link; when no transfer unit can, the new transfer unit (the node appended to the graph)
  is wired to the last container of the item, in creation order, that can take an incoming
  link.
\<close>

theorem handleByproduct_last_fit:
  assumes "\<not> isConsumed g container b"
  shows "(filter (\<lambda>t. canAddIncomingLinks cfg (g ! t) 1) (getTransferUnits b g) \<noteq> [] \<longrightarrow>
            handleByproduct cfg container b g =
              takeFrom cfg (last (filter (\<lambda>t. canAddIncomingLinks cfg (g ! t) 1) (getTransferUnits b g)))
                container g) \<and>
         (filter (\<lambda>t. canAddIncomingLinks cfg (g ! t) 1) (getTransferUnits b g) = [] \<and>
          filter (\<lambda>c. canAddIncomingLinks cfg (g ! c) 1) (getContainers b g) \<noteq> [] \<longrightarrow>
            handleByproduct cfg container b g =
              (case outputTo cfg (length g)
                      (last (filter (\<lambda>c. canAddIncomingLinks cfg (g ! c) 1) (getContainers b g)))
                      (g @ [newNode TransferNode b]) of
                 Inl e \<Rightarrow> Inl e
               | Inr g3 \<Rightarrow> takeFrom cfg (length g) container g3))"
  using assms
  by (simp add: handleByproduct_def selectTransfer_def keepFitting_last createTransferUnit_def
        createNode_def selectOutput_after_createTransferUnit)
     (simp add: selectOutput_def keepFitting_last)

text \<open>
  The theorem at work: with two fitting transfer units 1 and 2, unit 2 is taken; with no
  transfer unit and two fitting containers 1 and 2, the new unit 3 is wired to container 2.
\<close>

theorem handleByproduct_last_fit_witness:
  "handleByproduct (stdConfig ore04) 0 4
       [newNode ContainerNode 1, newNode TransferNode 4, newNode TransferNode 4]
     = takeFrom (stdConfig ore04) 2 0
         [newNode ContainerNode 1, newNode TransferNode 4, newNode TransferNode 4] \<and>
   handleByproduct (stdConfig ore04) 0 4
       [newNode ContainerNode 5, newNode ContainerNode 4, newNode ContainerNode 4]
     = (case outputTo (stdConfig ore04) 3 2
               [newNode ContainerNode 5, newNode ContainerNode 4, newNode ContainerNode 4,
                newNode TransferNode 4] of
          Inl e \<Rightarrow> Inl e
        | Inr g3 \<Rightarrow> takeFrom (stdConfig ore04) 3 0 g3)"
proof -
  let ?cfg = "stdConfig ore04"
  let ?g1 = "[newNode ContainerNode 1, newNode TransferNode 4, newNode TransferNode 4]"
  let ?g2 = "[newNode ContainerNode 5, newNode ContainerNode 4, newNode ContainerNode 4]"
  have a1: "\<not> isConsumed ?g1 0 4" by code_simp
  have f1: "filter (\<lambda>t. canAddIncomingLinks ?cfg (?g1 ! t) 1) (getTransferUnits 4 ?g1) = [1, 2]"
    by code_simp
  have a2: "\<not> isConsumed ?g2 0 4" by code_simp
  have f2: "filter (\<lambda>t. canAddIncomingLinks ?cfg (?g2 ! t) 1) (getTransferUnits 4 ?g2) = []"
    by code_simp
  have f3: "filter (\<lambda>c. canAddIncomingLinks ?cfg (?g2 ! c) 1) (getContainers 4 ?g2) = [1, 2]"
    by code_simp
  from handleByproduct_last_fit [OF a1, of ?cfg] f1
  have "handleByproduct ?cfg 0 4 ?g1 = takeFrom ?cfg 2 0 ?g1" by simp
  moreover from handleByproduct_last_fit [OF a2, of ?cfg] f2 f3
  have "handleByproduct ?cfg 0 4 ?g2
          = (case outputTo ?cfg 3 2 (?g2 @ [newNode TransferNode 4]) of
               Inl e \<Rightarrow> Inl e
             | Inr g3 \<Rightarrow> takeFrom ?cfg 3 0 g3)"
    by (simp add: numeral_3_eq_3 cong: sum.case_cong)
  ultimately show ?thesis by simp
qed

text \<open>
  C8 as stated fails. One assembler of item 2 over \<open>residueDB\<close>: when the byproducts are
  handled, the containers of ore 4 are the nodes 4 and 14 and both can take an incoming
  link, node 4 being the first; the transfer unit created for the byproduct of item 5
  (node 18, fed by container 15) is wired to node 14.
\<close>

theorem handleByproducts_not_first_fit:
  "(case addRequirements (stdConfig ore04) residueDB 30 [(2, 1, 0)] [] of
      Inl e \<Rightarrow> False
    | Inr g \<Rightarrow>
        length g = 18 \<and> getContainers 4 g = [4, 14] \<and>
        find (\<lambda>c. canAddIncomingLinks (stdConfig ore04) (g ! c) 1) (getContainers 4 g) = Some 4 \<and>
        (case handleByproducts (stdConfig ore04) residueDB 30 g of
           Inl e \<Rightarrow> False
         | Inr g' \<Rightarrow>
             length g' = 19 \<and> kind (g' ! 18) = TransferNode \<and> item (g' ! 18) = 4 \<and>
             producers (g' ! 18) = [15] \<and> consumers (g' ! 18) = [14] \<and> 
             consumers (g' ! 18) \<noteq> [4]))"
  by code_simp

section \<open>Split containers\<close>

lemma length_splitLinks: "length (splitLinks k e r) = k"
  by (induction k arbitrary: r) (simp_all add: Let_def)

lemma splitLinks_shape:
  "0 < e \<Longrightarrow> int k * e < r \<Longrightarrow> r \<le> (int k + 1) * e \<Longrightarrow>
     splitLinks (Suc k) e r = replicate k e @ [r - int k * e]"
proof (induction k arbitrary: r)
  case 0
  then show ?case by (simp add: Let_def min_def)
next
  case (Suc k)
  have less: "e \<le> r"
  proof -
    have "e \<le> int (Suc k) * e" using Suc.prems(1) by (simp add: algebra_simps)
    with Suc.prems(2) show ?thesis by linarith
  qed
  have "splitLinks (Suc k) e (r - e) = replicate k e @ [r - e - int k * e]"
    using Suc.prems by (intro Suc.IH) (simp_all add: algebra_simps)
  with less show ?case
    by (simp add: Let_def min_def algebra_simps)
qed

lemma ceil_div_bounds:
  fixes n m :: int
  assumes "0 < m"
  shows "n \<le> \<lceil>rat_of_int n / rat_of_int m\<rceil> * m" and "(\<lceil>rat_of_int n / rat_of_int m\<rceil> - 1) * m < n"
proof -
  let ?k = "\<lceil>rat_of_int n / rat_of_int m\<rceil>"
  have m: "0 < rat_of_int m" using assms by simp
  have "rat_of_int n / rat_of_int m \<le> rat_of_int ?k" by (rule le_of_int_ceiling)
  then have "rat_of_int n \<le> rat_of_int ?k * rat_of_int m"
    using m by (metis pos_divide_le_eq)
  then have "rat_of_int n \<le> rat_of_int (?k * m)" by simp
  then show "n \<le> ?k * m" by (simp only: of_int_le_iff)
  have "rat_of_int ?k - 1 < rat_of_int n / rat_of_int m" using ceiling_correct [of "rat_of_int n / rat_of_int m"] by simp
  then have "(rat_of_int ?k - 1) * rat_of_int m < rat_of_int n"
    using m by (metis pos_less_divide_eq)
  then have "rat_of_int ((?k - 1) * m) < rat_of_int n" by simp
  then show "(?k - 1) * m < n" by (simp only: of_int_less_iff)
qed


lemma createSplitContainers_eq:
  "createSplitContainers i ss g =
     ([length g ..< length g + length ss],
      g @ map (\<lambda>s. (newNode ContainerNode i)\<lparr>isSplit := True, splitFraction := s\<rparr>) ss)"
proof (induction ss arbitrary: g)
  case Nil
  then show ?case by simp
next
  case (Cons s ss)
  have "[length g ..< length g + length (s # ss)]
          = length g # [Suc (length g) ..< Suc (length g) + length ss]"
    by (subst upt_rec) simp
  with Cons show ?case
    by (simp add: createSplitContainer_def createNode_def)
qed


lemma split_shares:
  fixes n :: int and m :: nat
  assumes pos: "0 < m" and big: "int m < n"
  defines "k \<equiv> \<lceil>rat_of_int n / rat_of_nat m\<rceil>"
  defines "e \<equiv> \<lceil>rat_of_int n / rat_of_int k\<rceil>"
  shows "2 \<le> k" and "0 < e" and "e \<le> int m" and "(k - 1) * e < n" and "n \<le> k * e"
    and "splitLinks (nat k) e n = replicate (nat k - 1) e @ [n - int (nat k - 1) * e]"
proof -
  have m: "0 < int m" using pos by simp
  have k_eq: "k = \<lceil>rat_of_int n / rat_of_int (int m)\<rceil>" by (simp add: k_def)
  have up: "n \<le> k * int m" and low: "(k - 1) * int m < n"
    unfolding k_eq using ceil_div_bounds [OF m, of n] by simp_all
  have "1 * int m < k * int m" using big up by simp
  then have "1 < k" using m by (auto simp: mult_less_cancel_right)
  then show k2: "2 \<le> k" by simp
  then have kpos: "0 < k" by simp
  have eup: "n \<le> e * k" and elow: "(e - 1) * k < n"
    unfolding e_def using ceil_div_bounds [OF kpos, of n] by simp_all
  have npos: "0 < n" using big by simp
  have "0 < e * k" using npos eup by simp
  then show epos: "0 < e" using kpos by (simp add: zero_less_mult_iff)
  have "(e - 1) * k < int m * k" using elow up by (simp add: mult.commute)
  then have "e - 1 < int m" using kpos by (auto simp: mult_less_cancel_right)
  then show em: "e \<le> int m" by simp
  have "(k - 1) * e \<le> (k - 1) * int m"
    using em k2 by (intro mult_left_mono) simp_all
  with low show less: "(k - 1) * e < n" by simp
  show le: "n \<le> k * e" using eup by (simp add: mult.commute)
  have nat_k: "nat k = Suc (nat k - 1)" "int (nat k - 1) = k - 1"
    using k2 by simp_all
  have "splitLinks (Suc (nat k - 1)) e n = replicate (nat k - 1) e @ [n - int (nat k - 1) * e]"
    using epos less le nat_k(2) by (intro splitLinks_shape) (simp_all add: algebra_simps)
  with nat_k(1) show "splitLinks (nat k) e n = replicate (nat k - 1) e @ [n - int (nat k - 1) * e]"
    by simp
qed







section \<open>Graphs grow\<close>

lemma linksClosed_iff:
  "linksClosed g \<longleftrightarrow>
     (\<forall>n<length g. (\<forall>k\<in>set (producers (g ! n)). k < length g) \<and>
                    (\<forall>k\<in>set (consumers (g ! n)). k < length g))"
proof -
  have "linksClosed g \<longleftrightarrow>
          (\<forall>n<length g. list_all (\<lambda>k. k < length g) (producers (g ! n)) \<and>
                         list_all (\<lambda>k. k < length g) (consumers (g ! n)))"
    unfolding linksClosed_def by (rule list_all_length)
  then show ?thesis by (simp only: list_all_iff)
qed

lemma extends_refl: "extends g g"
  by (auto simp: extends_def)

lemma extends_trans:
  assumes "extends g g1" and "extends g1 g2"
  shows "extends g g2"
  unfolding extends_def
proof (intro conjI allI impI)
  show "length g \<le> length g2"
    using assms by (simp add: extends_def)
next
  fix n assume n: "n < length g"
  then have n1: "n < length g1" using assms(1) by (simp add: extends_def)
  from n assms(1) have a: "kind (g1 ! n) = kind (g ! n)" "item (g1 ! n) = item (g ! n)"
      "isSplit (g1 ! n) = isSplit (g ! n)" "set (consumers (g ! n)) \<subseteq> set (consumers (g1 ! n))"
    by (simp_all add: extends_def)
  from n1 assms(2) have b: "kind (g2 ! n) = kind (g1 ! n)" "item (g2 ! n) = item (g1 ! n)"
      "isSplit (g2 ! n) = isSplit (g1 ! n)" "set (consumers (g1 ! n)) \<subseteq> set (consumers (g2 ! n))"
    by (simp_all add: extends_def)
  show "kind (g2 ! n) = kind (g ! n)" using a b by simp
  show "item (g2 ! n) = item (g ! n)" using a b by simp
  show "isSplit (g2 ! n) = isSplit (g ! n)" using a b by simp
  show "set (consumers (g ! n)) \<subseteq> set (consumers (g2 ! n))" using a b by blast
next
  fix n assume n: "length g \<le> n \<and> n < length g2"
  show "\<not> unserved (g2 ! n)"
  proof (cases "n < length g1")
    case True
    with n assms(1) have new: "\<not> unserved (g1 ! n)" by (simp add: extends_def)
    from True assms(2) have "kind (g2 ! n) = kind (g1 ! n)" "isSplit (g2 ! n) = isSplit (g1 ! n)"
      "set (consumers (g1 ! n)) \<subseteq> set (consumers (g2 ! n))"
      by (simp_all add: extends_def)
    with new show ?thesis by (auto simp: unserved_def)
  next
    case False
    with n assms(2) show ?thesis by (simp add: extends_def)
  qed
qed

lemma extends_length: "extends g g' \<Longrightarrow> length g \<le> length g'"
  by (simp add: extends_def)

lemma extends_append: "\<not> unserved n \<Longrightarrow> extends g (g @ [n])"
  by (auto simp: extends_def nth_append less_Suc_eq)

lemma served_newNode: "\<not> unserved (newNode k i)"
  by (simp add: unserved_def newNode_def)

lemma linksClosed_append:
  assumes closed: "linksClosed g" and empty: "producers n = []" "consumers n = []"
  shows "linksClosed (g @ [n])"
  unfolding linksClosed_iff
proof (intro allI impI)
  fix m assume m: "m < length (g @ [n])"
  show "(\<forall>k\<in>set (producers ((g @ [n]) ! m)). k < length (g @ [n])) \<and>
        (\<forall>k\<in>set (consumers ((g @ [n]) ! m)). k < length (g @ [n]))"
  proof (cases "m < length g")
    case True
    with closed have "(\<forall>k\<in>set (producers (g ! m)). k < length g) \<and>
                      (\<forall>k\<in>set (consumers (g ! m)). k < length g)"
      unfolding linksClosed_iff by blast
    then have "(\<forall>k\<in>set (producers (g ! m)). k < Suc (length g)) \<and>
               (\<forall>k\<in>set (consumers (g ! m)). k < Suc (length g))"
      using less_SucI by blast
    with True show ?thesis by (simp add: nth_append)
  next
    case False
    with m have "m = length g" by simp
    with empty show ?thesis by simp
  qed
qed

lemma set_setAdd: "set (setAdd x xs) = insert x (set xs)"
  by (auto simp: setAdd_def)

lemma length_addLink: "length (addLink src dst g) = length g"
  by (simp add: addLink_def Let_def)

lemma addLink_nth:
  assumes "src < length g" and "dst < length g"
  shows "addLink src dst g ! n =
     (if n = dst then
        (if n = src then (g ! n)\<lparr>consumers := setAdd dst (consumers (g ! n)),
                                producers := setAdd src (producers (g ! n))\<rparr>
         else (g ! n)\<lparr>producers := setAdd src (producers (g ! n))\<rparr>)
      else if n = src then (g ! n)\<lparr>consumers := setAdd dst (consumers (g ! n))\<rparr>
      else g ! n)"
  using assms by (simp add: addLink_def Let_def nth_list_update)

lemma addLink_fields:
  assumes "src < length g" and "dst < length g"
  shows "kind (addLink src dst g ! n) = kind (g ! n)"
    and "item (addLink src dst g ! n) = item (g ! n)"
    and "items (addLink src dst g ! n) = items (g ! n)"
    and "isSplit (addLink src dst g ! n) = isSplit (g ! n)"
    and "splitFraction (addLink src dst g ! n) = splitFraction (g ! n)"
  by (simp_all add: addLink_nth [OF assms])

lemma addLink_consumers:
  assumes "src < length g" and "dst < length g"
  shows "consumers (addLink src dst g ! n)
           = (if n = src then setAdd dst (consumers (g ! n)) else consumers (g ! n))"
  by (simp add: addLink_nth [OF assms])

lemma addLink_producers:
  assumes "src < length g" and "dst < length g"
  shows "producers (addLink src dst g ! n)
           = (if n = dst then setAdd src (producers (g ! n)) else producers (g ! n))"
  by (simp add: addLink_nth [OF assms])

lemma extends_addLink: "src < length g \<Longrightarrow> dst < length g \<Longrightarrow> extends g (addLink src dst g)"
  by (auto simp: extends_def length_addLink addLink_fields addLink_consumers set_setAdd)

lemma linksClosed_addLink:
  assumes closed: "linksClosed g" and src: "src < length g" and dst: "dst < length g"
  shows "linksClosed (addLink src dst g)"
  unfolding linksClosed_iff length_addLink
proof (intro allI impI conjI ballI)
  fix n k assume n: "n < length g" and k: "k \<in> set (producers (addLink src dst g ! n))"
  from closed n have old: "\<forall>k\<in>set (producers (g ! n)). k < length g"
    unfolding linksClosed_iff by blast
  from k have "k = src \<or> k \<in> set (producers (g ! n))"
    by (simp add: addLink_producers [OF src dst] set_setAdd split: if_splits)
  with old src show "k < length g" by blast
next
  fix n k assume n: "n < length g" and k: "k \<in> set (consumers (addLink src dst g ! n))"
  from closed n have old: "\<forall>k\<in>set (consumers (g ! n)). k < length g"
    unfolding linksClosed_iff by blast
  from k have "k = dst \<or> k \<in> set (consumers (g ! n))"
    by (simp add: addLink_consumers [OF src dst] set_setAdd split: if_splits)
  with old dst show "k < length g" by blast
qed

lemma attach_Inr:
  "attach cfg src dst g = Inr g' \<Longrightarrow> g' = addLink src dst g"
  by (auto simp: attach_def split: if_splits)


lemma attach_props:
  assumes "attach cfg src dst g = Inr g'" and "src < length g" and "dst < length g"
  shows "extends g g'" and "length g' = length g"
    and "linksClosed g \<Longrightarrow> linksClosed g'"
    and "dst \<in> set (consumers (g' ! src))"
    and "kind (g' ! n) = kind (g ! n)" and "item (g' ! n) = item (g ! n)"
proof -
  have eq: "g' = addLink src dst g" using assms(1) by (rule attach_Inr)
  show "extends g g'" unfolding eq using assms(2,3) by (rule extends_addLink)
  show "length g' = length g" unfolding eq by (rule length_addLink)
  show "linksClosed g \<Longrightarrow> linksClosed g'"
    unfolding eq by (rule linksClosed_addLink [OF _ assms(2,3)])
  show "dst \<in> set (consumers (g' ! src))"
    unfolding eq by (simp add: addLink_consumers [OF assms(2,3)] set_setAdd)
  show "kind (g' ! n) = kind (g ! n)" and "item (g' ! n) = item (g ! n)"
    unfolding eq by (simp_all add: addLink_fields [OF assms(2,3)])
qed

lemma itemOf_extends:
  "extends g g' \<Longrightarrow> k < length g \<Longrightarrow> itemOf (g' ! k) = itemOf (g ! k)"
  by (simp add: extends_def itemOf_def)

lemma isConsumed_iff:
  "isConsumed g c b \<longleftrightarrow> (\<exists>k\<in>set (consumers (g ! c)). itemOf (g ! k) = Some b)"
  by (simp add: isConsumed_def list_ex_iff)

lemma isConsumed_extends:
  assumes ext: "extends g g'" and closed: "linksClosed g" and c: "c < length g"
    and old: "isConsumed g c b"
  shows "isConsumed g' c b"
proof -
  from old obtain k where k: "k \<in> set (consumers (g ! c))" "itemOf (g ! k) = Some b"
    unfolding isConsumed_iff by blast
  from closed c k(1) have "k < length g" unfolding linksClosed_iff by blast
  with ext k(2) have "itemOf (g' ! k) = Some b" by (simp add: itemOf_extends)
  moreover from ext c k(1) have "k \<in> set (consumers (g' ! c))"
    unfolding extends_def by blast
  ultimately show ?thesis unfolding isConsumed_iff by blast
qed

lemma keepFitting_Some: "keepFitting fits ns = Some n \<Longrightarrow> n \<in> set ns \<and> fits n"
proof (induction ns rule: rev_induct)
  case Nil
  then show ?case by (simp add: keepFitting_def)
next
  case (snoc x xs)
  then show ?case by (auto simp: keepFitting_append split: if_splits)
qed

lemma getTransferUnits_props:
  "t \<in> set (getTransferUnits b g) \<Longrightarrow> t < length g \<and> kind (g ! t) = TransferNode \<and> item (g ! t) = b"
  by (simp add: getTransferUnits_def nodesOfKind_def)

lemma getContainers_props:
  "c \<in> set (getContainers b g) \<Longrightarrow> c < length g \<and> kind (g ! c) = ContainerNode \<and> item (g ! c) = b"
  by (simp add: getContainers_def nodesOfKind_def)

lemma newNode_fields:
  "kind (newNode k i) = k" "item (newNode k i) = i" "producers (newNode k i) = []"
  "consumers (newNode k i) = []" "isSplit (newNode k i) = False"
  by (simp_all add: newNode_def)

text \<open>What one round for one byproduct leaves behind.\<close>

lemma handleByproduct_props:
  assumes run: "handleByproduct cfg c b g = Inr g'" and c: "c < length g"
    and closed: "linksClosed g"
  shows "extends g g' \<and> linksClosed g' \<and> isConsumed g' c b"
proof (cases "isConsumed g c b")
  case True
  with run have "g' = g" by (simp add: handleByproduct_def)
  with True closed show ?thesis by (simp add: extends_refl)
next
  case False
  show ?thesis
  proof (cases "selectTransfer cfg b g")
    case (Some t)
    then have "t \<in> set (getTransferUnits b g)"
      unfolding selectTransfer_def by (blast dest: keepFitting_Some)
    then have t: "t < length g" "kind (g ! t) = TransferNode" "item (g ! t) = b"
      by (simp_all add: getTransferUnits_props)
    from run False Some have att: "attach cfg c t g = Inr g'"
      by (simp add: handleByproduct_def takeFrom_def)
    note p = attach_props [OF att c t(1)]
    have "itemOf (g' ! t) = Some b"
      using p(5) [of t] p(6) [of t] t by (simp add: itemOf_def)
    with p(4) have "isConsumed g' c b" unfolding isConsumed_iff by blast
    with p(1) p(3) closed show ?thesis by simp
  next
    case None
    define g1 where "g1 = g @ [newNode TransferNode b]"
    define t where "t = length g"
    have g1: "extends g g1" "linksClosed g1" "t < length g1" "kind (g1 ! t) = TransferNode"
        "item (g1 ! t) = b" "c < length g1"
      using closed c
      by (simp_all add: g1_def t_def extends_append served_newNode linksClosed_append newNode_fields)
    obtain out g2 where sel:
      "(case selectOutput cfg b g1 of Some out \<Rightarrow> (out, g1) | None \<Rightarrow> createContainer b g1) = (out, g2)"
      by (cases "(case selectOutput cfg b g1 of Some out \<Rightarrow> (out, g1) | None \<Rightarrow> createContainer b g1)")
    have g2: "extends g1 g2 \<and> linksClosed g2 \<and> out < length g2"
    proof (cases "selectOutput cfg b g1")
      case None
      with sel have "out = length g1" "g2 = g1 @ [newNode ContainerNode b]"
        by (simp_all add: createContainer_def createNode_def)
      then show ?thesis
        using g1(2) by (simp add: extends_append served_newNode linksClosed_append newNode_fields)
    next
      case (Some o')
      with sel have eq: "out = o'" "g2 = g1" by simp_all
      from Some have "o' \<in> set (getContainers b g1)"
        unfolding selectOutput_def by (blast dest: keepFitting_Some)
      then have "o' < length g1" by (simp add: getContainers_props)
      with eq g1(2) show ?thesis by (simp add: extends_refl)
    qed
    have t2: "t < length g2" "c < length g2" "kind (g2 ! t) = TransferNode" "item (g2 ! t) = b"
      using g2 g1 by (auto simp: extends_def)
    have "(case attach cfg t out g2 of Inl e \<Rightarrow> Inl e | Inr g3 \<Rightarrow> takeFrom cfg t c g3) = Inr g'"
      using run False None sel
      by (simp add: handleByproduct_def createTransferUnit_def createNode_def
            g1_def [symmetric] t_def [symmetric] outputTo_def takeFrom_def)
    then obtain g3 where
      a1: "attach cfg t out g2 = Inr g3" and a2: "attach cfg c t g3 = Inr g'"
      by (cases "attach cfg t out g2") (simp_all add: takeFrom_def)
    note p1 = attach_props [OF a1 t2(1)]
    have out: "out < length g2" using g2 by simp
    have len3: "length g3 = length g2" using p1(2) [OF out] .
    have t3: "t < length g3" "c < length g3" using t2 len3 by simp_all
    note p2 = attach_props [OF a2 t3(2) t3(1)]
    have "kind (g' ! t) = TransferNode" "item (g' ! t) = b"
      using p2(5) [of t] p2(6) [of t] p1(5) [OF out, of t] p1(6) [OF out, of t] t2 by simp_all
    then have "itemOf (g' ! t) = Some b" by (simp add: itemOf_def)
    with p2(4) have consumed: "isConsumed g' c b" unfolding isConsumed_iff by blast
    have "extends g g'"
      using g1(1) g2 p1(1) [OF out] p2(1) by (blast intro: extends_trans)
    moreover have "linksClosed g'"
      using g2 p1(3) [OF out] p2(3) by blast
    ultimately show ?thesis using consumed by simp
  qed
qed


lemma handleByproductList_props:
  assumes "handleByproductList cfg c bs g = Inr g'" and "c < length g" and "linksClosed g"
  shows "extends g g' \<and> linksClosed g' \<and> list_all (\<lambda>b. isConsumed g' c (fst b)) bs"
  using assms
proof (induction bs arbitrary: g)
  case Nil
  then show ?case by (simp add: extends_refl)
next
  case (Cons b bs)
  from Cons.prems(1) obtain g1 where
    first: "handleByproduct cfg c (fst b) g = Inr g1" and
    rest: "handleByproductList cfg c bs g1 = Inr g'"
    by (cases "handleByproduct cfg c (fst b) g") simp_all
  from handleByproduct_props [OF first Cons.prems(2,3)]
  have g1: "extends g g1" "linksClosed g1" "isConsumed g1 c (fst b)" by simp_all
  have c1: "c < length g1" using g1(1) Cons.prems(2) by (simp add: extends_def)
  from Cons.IH [OF rest c1 g1(2)]
  have g': "extends g1 g'" "linksClosed g'" "list_all (\<lambda>b. isConsumed g' c (fst b)) bs"
    by simp_all
  have "isConsumed g' c (fst b)"
    using g'(1) g1(2) c1 g1(3) by (rule isConsumed_extends)
  with g1(1) g' show ?case by (simp add: extends_trans [of g g1 g'])
qed

lemma handleContainer_props:
  assumes run: "handleContainer cfg db c g = Inr g'" and c: "c < length g" and closed: "linksClosed g"
  shows "extends g g' \<and> linksClosed g' \<and> reconciled cfg db g' c"
proof (cases "isOre cfg (item (g ! c))")
  case True
  with run have "g' = g" by (simp add: handleContainer_def)
  with True closed show ?thesis by (simp add: extends_refl reconciled_def)
next
  case False
  with run obtain r where r: "db (item (g ! c)) = Some r"
    and list: "handleByproductList cfg c (byproducts r) g = Inr g'"
    by (cases "db (item (g ! c))") (simp_all add: handleContainer_def findRecipe_def)
  from handleByproductList_props [OF list c closed]
  have g': "extends g g'" "linksClosed g'" "list_all (\<lambda>b. isConsumed g' c (fst b)) (byproducts r)"
    by simp_all
  have "item (g' ! c) = item (g ! c)" using g'(1) c by (simp add: extends_def)
  with r g'(3) have "reconciled cfg db g' c" by (simp add: reconciled_def)
  with g' show ?thesis by simp
qed

lemma reconciled_extends:
  assumes ext: "extends g g'" and closed: "linksClosed g" and c: "c < length g"
    and old: "reconciled cfg db g c"
  shows "reconciled cfg db g' c"
proof -
  have same: "kind (g' ! c) = kind (g ! c)" "item (g' ! c) = item (g ! c)"
    using ext c by (simp_all add: extends_def)
  show ?thesis
  proof (cases "kind (g ! c) \<noteq> ContainerNode \<or> isOre cfg (item (g ! c))")
    case True
    with same show ?thesis by (auto simp: reconciled_def)
  next
    case False
    with old obtain r where r: "db (item (g ! c)) = Some r"
      and all: "list_all (\<lambda>b. isConsumed g c (fst b)) (byproducts r)"
      by (cases "db (item (g ! c))") (auto simp: reconciled_def)
    have "list_all (\<lambda>b. isConsumed g' c (fst b)) (byproducts r)"
      using all isConsumed_extends [OF ext closed c] by (simp add: list_all_iff)
    with r same show ?thesis by (simp add: reconciled_def)
  qed
qed

text \<open>The loop reconciles every container, those it creates included.\<close>

lemma byproductLoop_props:
  assumes "byproductLoop cfg db fuel n g = Inr g'" and "linksClosed g" and "n \<le> length g"
    and "\<forall>c<n. reconciled cfg db g c"
  shows "extends g g' \<and> linksClosed g' \<and> (\<forall>c<length g'. reconciled cfg db g' c) \<and>
         length g' \<le> n + fuel"
  using assms
proof (induction fuel arbitrary: n g)
  case 0
  then have "length g \<le> n \<and> g' = g" by (simp split: if_splits)
  with 0 show ?case by (simp add: extends_refl)
next
  case (Suc fuel)
  show ?case
  proof (cases "length g \<le> n")
    case True
    with Suc.prems have "g' = g" "length g = n" by simp_all
    with Suc.prems show ?thesis by (simp add: extends_refl)
  next
    case False
    then have n: "n < length g" by simp
    obtain g1 where step: "extends g g1 \<and> linksClosed g1 \<and> reconciled cfg db g1 n"
      and rest: "byproductLoop cfg db fuel (Suc n) g1 = Inr g'"
    proof (cases "kind (g ! n) = ContainerNode")
      case True
      with Suc.prems(1) n obtain g1 where hc: "handleContainer cfg db n g = Inr g1"
        and rest: "byproductLoop cfg db fuel (Suc n) g1 = Inr g'"
        by (cases "handleContainer cfg db n g") simp_all
      from handleContainer_props [OF hc n Suc.prems(2)] rest that show ?thesis by blast
    next
      case False
      with Suc.prems(1) n have "byproductLoop cfg db fuel (Suc n) g = Inr g'" by simp
      moreover from False have "reconciled cfg db g n" by (simp add: reconciled_def)
      ultimately show ?thesis using that [of g] Suc.prems(2) by (simp add: extends_refl)
    qed
    have len: "Suc n \<le> length g1" using step n by (simp add: extends_def)
    have before: "\<forall>c<Suc n. reconciled cfg db g1 c"
    proof (intro allI impI)
      fix c assume "c < Suc n"
      then consider "c < n" | "c = n" by linarith
      then show "reconciled cfg db g1 c"
      proof cases
        case 1
        with Suc.prems(4) have "reconciled cfg db g c" by simp
        moreover from 1 n have "c < length g" by simp
        ultimately show ?thesis
          using step Suc.prems(2) by (blast intro: reconciled_extends)
      next
        case 2
        with step show ?thesis by simp
      qed
    qed
    from step have closed1: "linksClosed g1" by simp
    from Suc.IH [OF rest closed1 len before]
    have "extends g1 g'" "linksClosed g'" "\<forall>c<length g'. reconciled cfg db g' c"
      "length g' \<le> Suc n + fuel"
      by simp_all
    with step show ?thesis by (simp add: extends_trans [of g g1 g'])
  qed
qed

text \<open>On a graph whose containers are all reconciled the loop changes nothing.\<close>

lemma handleByproductList_consumed:
  "list_all (\<lambda>b. isConsumed g c (fst b)) bs \<Longrightarrow> handleByproductList cfg c bs g = Inr g"
  by (induction bs) (simp_all add: handleByproduct_def)

lemma handleContainer_reconciled:
  assumes "reconciled cfg db g c" and "kind (g ! c) = ContainerNode"
  shows "handleContainer cfg db c g = Inr g"
proof (cases "isOre cfg (item (g ! c))")
  case True
  then show ?thesis by (simp add: handleContainer_def)
next
  case False
  with assms obtain r where "db (item (g ! c)) = Some r"
    "list_all (\<lambda>b. isConsumed g c (fst b)) (byproducts r)"
    by (cases "db (item (g ! c))") (auto simp: reconciled_def)
  with False show ?thesis
    by (simp add: handleContainer_def findRecipe_def handleByproductList_consumed)
qed

lemma byproductLoop_fixed:
  assumes "\<forall>c<length g. reconciled cfg db g c" and "length g \<le> n + fuel"
  shows "byproductLoop cfg db fuel n g = Inr g"
  using assms
proof (induction fuel arbitrary: n)
  case 0
  then show ?case by simp
next
  case (Suc fuel)
  show ?case
  proof (cases "length g \<le> n")
    case True
    then show ?thesis by simp
  next
    case False
    then have n: "n < length g" by simp
    have next_round: "byproductLoop cfg db fuel (Suc n) g = Inr g"
      using Suc.prems by (intro Suc.IH) simp_all
    show ?thesis
    proof (cases "kind (g ! n) = ContainerNode")
      case True
      with Suc.prems(1) n have "handleContainer cfg db n g = Inr g"
        by (simp add: handleContainer_reconciled)
      with True n next_round show ?thesis by simp
    next
      case False
      with n next_round show ?thesis by simp
    qed
  qed
qed

text \<open>
  C6. After \<^verbatim>\<open>handleByproducts\<close> has run on a well-formed graph, every container whose
  item is not an ore has a recipe, and for every byproduct of that recipe some consumer of
  the container has the byproduct's item.
\<close>

theorem handleByproducts_closure:
  assumes run: "handleByproducts cfg db fuel g = Inr g'" and closed: "linksClosed g"
  shows "\<forall>c<length g'. kind (g' ! c) = ContainerNode \<and> \<not> isOre cfg (item (g' ! c)) \<longrightarrow>
           (\<exists>r. db (item (g' ! c)) = Some r \<and>
                (\<forall>b\<in>set (byproducts r).
                   \<exists>k\<in>set (consumers (g' ! c)). itemOf (g' ! k) = Some (fst b)))"
proof (intro allI impI)
  fix c assume c: "c < length g'" and node: "kind (g' ! c) = ContainerNode \<and> \<not> isOre cfg (item (g' ! c))"
  from run have loop: "byproductLoop cfg db fuel 0 g = Inr g'" by (simp add: handleByproducts_def)
  from byproductLoop_props [OF loop closed] c have "reconciled cfg db g' c" by simp
  with node obtain r where "db (item (g' ! c)) = Some r"
    "list_all (\<lambda>b. isConsumed g' c (fst b)) (byproducts r)"
    by (cases "db (item (g' ! c))") (auto simp: reconciled_def)
  then show "\<exists>r. db (item (g' ! c)) = Some r \<and>
                (\<forall>b\<in>set (byproducts r).
                   \<exists>k\<in>set (consumers (g' ! c)). itemOf (g' ! k) = Some (fst b))"
    by (simp add: list_all_iff isConsumed_iff)
qed

text \<open>
  The theorem at work: one assembler of item 2 over \<open>residueDB\<close>. Node 15 is the container of
  item 5, whose recipe leaves ore 4; after the pass one of its consumers has item 4.
\<close>

theorem handleByproducts_closure_witness:
  "\<exists>g g'. addRequirements (stdConfig ore04) residueDB 30 [(2, 1, 0)] [] = Inr g \<and> linksClosed g \<and>
      handleByproducts (stdConfig ore04) residueDB 30 g = Inr g' \<and>
      15 < length g' \<and> kind (g' ! 15) = ContainerNode \<and> item (g' ! 15) = 5 \<and>
      \<not> isOre (stdConfig ore04) 5 \<and>
      (\<exists>r. residueDB 5 = Some r \<and> byproducts r = [(4, 1)] \<and>
           (\<exists>k\<in>set (consumers (g' ! 15)). itemOf (g' ! k) = Some 4))"
proof -
  let ?cfg = "stdConfig ore04"
  have "case addRequirements ?cfg residueDB 30 [(2, 1, 0)] [] of
          Inl e \<Rightarrow> False
        | Inr g \<Rightarrow> linksClosed g \<and>
            (case handleByproducts ?cfg residueDB 30 g of
               Inl e \<Rightarrow> False
             | Inr g' \<Rightarrow> 15 < length g' \<and> kind (g' ! 15) = ContainerNode \<and> item (g' ! 15) = 5)"
    by code_simp
  then obtain g g' where g: "addRequirements ?cfg residueDB 30 [(2, 1, 0)] [] = Inr g"
      "linksClosed g" "handleByproducts ?cfg residueDB 30 g = Inr g'"
      "15 < length g'" "kind (g' ! 15) = ContainerNode" "item (g' ! 15) = 5"
    by (auto split: sum.splits)
  have ore: "\<not> isOre ?cfg 5" by (simp add: stdConfig_def limitConfig_def ore04_def)
  have recipe: "residueDB 5 = Some \<lparr>product = (5, 1), ingredients = [(0, 1)], byproducts = [(4, 1)], time = 1\<rparr>"
    by (simp add: residueDB_def)
  from handleByproducts_closure [OF g(3) g(2)] g(4-6) ore recipe
  have "\<exists>k\<in>set (consumers (g' ! 15)). itemOf (g' ! k) = Some 4"
    by fastforce
  with g ore recipe show ?thesis by fastforce
qed

text \<open>
  C7. A second run of \<^verbatim>\<open>handleByproducts\<close> on the graph that a first run returned
  returns that graph unchanged: no node and no link is added, and with the graph and the
  database as they were every ingress and egress is as it was. This holds with the fuel of
  the first run and with any fuel that is at least the number of nodes.
\<close>

theorem handleByproducts_idempotent:
  assumes run: "handleByproducts cfg db fuel g = Inr g'" and closed: "linksClosed g"
  shows "handleByproducts cfg db fuel g' = Inr g' \<and>
         (\<forall>fuel'\<ge>length g'. handleByproducts cfg db fuel' g' = Inr g')"
proof -
  from run have loop: "byproductLoop cfg db fuel 0 g = Inr g'" by (simp add: handleByproducts_def)
  from byproductLoop_props [OF loop closed]
  have all: "\<forall>c<length g'. reconciled cfg db g' c" and fuel: "length g' \<le> fuel" by simp_all
  have "\<And>f. length g' \<le> f \<Longrightarrow> handleByproducts cfg db f g' = Inr g'"
    unfolding handleByproducts_def using all by (intro byproductLoop_fixed) simp_all
  with fuel show ?thesis by blast
qed


text \<open>
  The theorem at work: over \<open>residueDB\<close> the first run adds a transfer unit to the 18 nodes,
  the second run leaves the 19 nodes as they are.
\<close>

theorem handleByproducts_idempotent_witness:
  "\<exists>g g'. addRequirements (stdConfig ore04) residueDB 30 [(2, 1, 0)] [] = Inr g \<and> linksClosed g \<and>
      handleByproducts (stdConfig ore04) residueDB 30 g = Inr g' \<and>
      length g = 18 \<and> length g' = 19 \<and>
      handleByproducts (stdConfig ore04) residueDB 30 g' = Inr g'"
proof -
  let ?cfg = "stdConfig ore04"
  have "case addRequirements ?cfg residueDB 30 [(2, 1, 0)] [] of
          Inl e \<Rightarrow> False
        | Inr g \<Rightarrow> linksClosed g \<and> length g = 18 \<and>
            (case handleByproducts ?cfg residueDB 30 g of
               Inl e \<Rightarrow> False
             | Inr g' \<Rightarrow> length g' = 19)"
    by code_simp
  then obtain g g' where g: "addRequirements ?cfg residueDB 30 [(2, 1, 0)] [] = Inr g"
      "linksClosed g" "handleByproducts ?cfg residueDB 30 g = Inr g'"
      "length g = 18" "length g' = 19"
    by (auto split: sum.splits)
  from handleByproducts_idempotent [OF g(3) g(2)]
  have "handleByproducts ?cfg residueDB 30 g' = Inr g'" by simp
  with g show ?thesis by blast
qed

section \<open>Rewiring an industry\<close>

lemma length_detach: "length (detach c i g) = length g"
  by (simp add: detach_def Let_def)

lemma detach_nth:
  assumes "c < length g" and "i < length g"
  shows "detach c i g ! n =
     (if n = i then
        (if n = c then (g ! n)\<lparr>consumers := removeAll i (consumers (g ! n)),
                              producers := removeAll c (producers (g ! n))\<rparr>
         else (g ! n)\<lparr>producers := removeAll c (producers (g ! n))\<rparr>)
      else if n = c then (g ! n)\<lparr>consumers := removeAll i (consumers (g ! n))\<rparr>
      else g ! n)"
  using assms by (simp add: detach_def Let_def nth_list_update)

lemma detach_fields:
  assumes "c < length g" and "i < length g"
  shows "kind (detach c i g ! n) = kind (g ! n)" and "item (detach c i g ! n) = item (g ! n)"
    and "isSplit (detach c i g ! n) = isSplit (g ! n)"
  by (simp_all add: detach_nth [OF assms])

lemma detach_producers:
  assumes "c < length g" and "i < length g"
  shows "producers (detach c i g ! n)
           = (if n = i then removeAll c (producers (g ! n)) else producers (g ! n))"
  by (simp add: detach_nth [OF assms])

lemma detach_consumers:
  assumes "c < length g" and "i < length g"
  shows "consumers (detach c i g ! n)
           = (if n = c then removeAll i (consumers (g ! n)) else consumers (g ! n))"
  by (simp add: detach_nth [OF assms])


lemma find_Some_set: "find P xs = Some x \<Longrightarrow> x \<in> set xs \<and> P x"
  by (induction xs) (auto split: if_splits)











lemma linksClosed_detach:
  assumes closed: "linksClosed g" and c: "c < length g" and i: "i < length g"
  shows "linksClosed (detach c i g)"
  unfolding linksClosed_iff length_detach
proof (intro allI impI conjI ballI)
  fix n k assume n: "n < length g" and k: "k \<in> set (producers (detach c i g ! n))"
  from k have "k \<in> set (producers (g ! n))"
    by (simp add: detach_producers [OF c i] split: if_splits)
  with closed n show "k < length g" unfolding linksClosed_iff by blast
next
  fix n k assume n: "n < length g" and k: "k \<in> set (consumers (detach c i g ! n))"
  from k have "k \<in> set (consumers (g ! n))"
    by (simp add: detach_consumers [OF c i] split: if_splits)
  with closed n show "k < length g" unfolding linksClosed_iff by blast
qed











section \<open>Every split container is drawn from\<close>

text \<open>
  \<^verbatim>\<open>produce\<close> hands the split containers it creates to its caller, and both callers (lines 92
  to 94 and 295 to 297) attach the consuming industry to every container handed to them. The
  later passes only add links, except the rewiring of \<^verbatim>\<open>handleIndustryLinks\<close>, which moves a
  container from the industry to a transfer unit. So no pass leaves a split container
  without a consumer.
\<close>

lemma splitsServed_extends:
  assumes "splitsServed S g" and "extends g g'"
  shows "splitsServed S g'"
  unfolding splitsServed_def
proof (intro allI impI)
  fix c assume c: "c < length g'" and bad: "unserved (g' ! c)"
  show "c \<in> S"
  proof (cases "c < length g")
    case True
    with assms(2) have "kind (g' ! c) = kind (g ! c)" "isSplit (g' ! c) = isSplit (g ! c)"
      "set (consumers (g ! c)) \<subseteq> set (consumers (g' ! c))"
      by (simp_all add: extends_def)
    with bad have "unserved (g ! c)" by (auto simp: unserved_def)
    with assms(1) True show ?thesis by (simp add: splitsServed_def)
  next
    case False
    with c assms(2) have "\<not> unserved (g' ! c)" by (simp add: extends_def)
    with bad show ?thesis by simp
  qed
qed

lemma splitsServed_mono: "splitsServed S g \<Longrightarrow> S \<subseteq> T \<Longrightarrow> splitsServed T g"
  by (auto simp: splitsServed_def)

lemma splitsServed_drop:
  assumes "splitsServed (S \<union> T) g" and "\<forall>c\<in>T. consumers (g ! c) \<noteq> []"
  shows "splitsServed S g"
  using assms by (auto simp: splitsServed_def unserved_def)

lemma splitsServed_append_list:
  assumes "splitsServed S g"
  shows "splitsServed (S \<union> set [length g ..< length g + length ns]) (g @ ns)"
  unfolding splitsServed_def
proof (intro allI impI)
  fix c assume c: "c < length (g @ ns)" and bad: "unserved ((g @ ns) ! c)"
  show "c \<in> S \<union> set [length g ..< length g + length ns]"
  proof (cases "c < length g")
    case True
    with bad have "unserved (g ! c)" by (simp add: nth_append)
    with assms True show ?thesis by (simp add: splitsServed_def)
  next
    case False
    with c show ?thesis by simp
  qed
qed

lemma linksClosed_append_list:
  assumes "linksClosed g" and "\<forall>n\<in>set ns. producers n = [] \<and> consumers n = []"
  shows "linksClosed (g @ ns)"
  using assms
proof (induction ns arbitrary: g)
  case Nil
  then show ?case by simp
next
  case (Cons n ns)
  then have "linksClosed (g @ [n])" by (simp add: linksClosed_append)
  with Cons have "linksClosed ((g @ [n]) @ ns)" by (intro Cons.IH) simp_all
  then show ?case by simp
qed

lemma attach_served:
  assumes run: "attach cfg src dst g = Inr g'" and src: "src < length g" and dst: "dst < length g"
    and closed: "linksClosed g" and served: "splitsServed S g"
  shows "extends g g'" and "length g' = length g" and "linksClosed g'" and "splitsServed S g'"
    and "consumers (g' ! src) \<noteq> []"
proof -
  note p = attach_props [OF run src dst]
  show "extends g g'" by (rule p(1))
  show "length g' = length g" by (rule p(2))
  show "linksClosed g'" using closed by (rule p(3))
  show "splitsServed S g'" using served p(1) by (rule splitsServed_extends)
  show "consumers (g' ! src) \<noteq> []" using p(4) by auto
qed

lemma takeFromAll_served:
  assumes "takeFromAll cfg industry inputs g = Inr g'" and "industry < length g"
    and "\<forall>c\<in>set inputs. c < length g" and "linksClosed g" and "splitsServed S g"
  shows "extends g g' \<and> length g' = length g \<and> linksClosed g' \<and> splitsServed S g' \<and>
         (\<forall>c\<in>set inputs. consumers (g' ! c) \<noteq> [])"
  using assms
proof (induction inputs arbitrary: g)
  case Nil
  then show ?case by (simp add: extends_refl)
next
  case (Cons c cs)
  from Cons.prems(1) obtain g1 where first: "attach cfg c industry g = Inr g1"
    and rest: "takeFromAll cfg industry cs g1 = Inr g'"
    by (cases "attach cfg c industry g") (simp_all add: takeFrom_def)
  have c: "c < length g" using Cons.prems(3) by simp
  note a = attach_served [OF first c Cons.prems(2,4,5)]
  have p: "industry < length g1" "\<forall>c\<in>set cs. c < length g1"
    using Cons.prems(2,3) a(2) by simp_all
  from Cons.IH [OF rest p a(3,4)]
  have ih: "extends g1 g'" "length g' = length g1" "linksClosed g'" "splitsServed S g'"
    "\<forall>c\<in>set cs. consumers (g' ! c) \<noteq> []"
    by simp_all
  have "c < length g1" using c a(2) by simp
  with ih(1) have "set (consumers (g1 ! c)) \<subseteq> set (consumers (g' ! c))"
    by (simp add: extends_def)
  with a(5) have "consumers (g' ! c) \<noteq> []" by auto
  with ih a(1,2) show ?case by (simp add: extends_trans [of g g1 g'])
qed

lemma buildIngredients_served:
  assumes "servesSplits rec" and "buildIngredients rec cfg t industry ings g = Inr g'"
    and "industry < length g" and "linksClosed g" and "splitsServed S g"
  shows "length g \<le> length g' \<and> linksClosed g' \<and> splitsServed S g'"
  using assms(2-)
proof (induction ings arbitrary: g)
  case Nil
  then show ?case by simp
next
  case (Cons ing ings)
  from Cons.prems(1) obtain inputs g1 g2 where
    call: "rec (fst ing) (snd ing / t) g = Inr (inputs, g1)" and
    take: "takeFromAll cfg industry inputs g1 = Inr g2" and
    rest: "buildIngredients rec cfg t industry ings g2 = Inr g'"
    by (auto split: sum.splits)
  from assms(1) call Cons.prems(3,4)
  have g1: "length g \<le> length g1" "linksClosed g1" "splitsServed (S \<union> set inputs) g1"
    "\<forall>c\<in>set inputs. c < length g1"
    unfolding servesSplits_def by blast+
  have i1: "industry < length g1" using Cons.prems(2) g1(1) by simp
  from takeFromAll_served [OF take i1 g1(4,2,3)]
  have g2: "length g2 = length g1" "linksClosed g2" "splitsServed (S \<union> set inputs) g2"
    "\<forall>c\<in>set inputs. consumers (g2 ! c) \<noteq> []"
    by simp_all
  from g2(3,4) have served: "splitsServed S g2" by (rule splitsServed_drop)
  have i2: "industry < length g2" using i1 g2(1) by simp
  from Cons.IH [OF rest i2 g2(2) served] g1(1) g2(1) show ?case by simp
qed


lemma createIndustry_served:
  assumes "linksClosed g" and "splitsServed S g"
  shows "linksClosed (g @ [newNode IndustryNode i])" and "splitsServed S (g @ [newNode IndustryNode i])"
proof -
  show "linksClosed (g @ [newNode IndustryNode i])"
    using assms(1) by (simp add: linksClosed_append newNode_fields)
  have "extends g (g @ [newNode IndustryNode i])"
    by (simp add: extends_append served_newNode)
  with assms(2) show "splitsServed S (g @ [newNode IndustryNode i])"
    by (rule splitsServed_extends)
qed

lemma addIndustries_served:
  assumes "servesSplits rec" and "addIndustries rec cfg recipe i outs n k g = Inr g'"
    and "outs \<noteq> []" and "\<forall>c\<in>set outs. c < length g" and "linksClosed g" and "splitsServed S g"
  shows "length g \<le> length g' \<and> linksClosed g' \<and> splitsServed S g'"
  using assms(2-)
proof (induction k arbitrary: n g)
  case 0
  then show ?case by simp
next
  case (Suc k)
  define g1 where "g1 = g @ [newNode IndustryNode i]"
  from Suc.prems(1) obtain g2 g3 where
    out: "attach cfg (length g) (outs ! (n mod length outs)) g1 = Inr g2" and
    ings: "buildIngredients rec cfg (time recipe) (length g) (ingredients recipe) g2 = Inr g3" and
    rest: "addIndustries rec cfg recipe i outs (Suc n) k g3 = Inr g'"
    by (auto simp: createIndustry_def createNode_def outputTo_def g1_def split: sum.splits)
  have g1: "linksClosed g1" "splitsServed S g1" "length g1 = Suc (length g)"
    using createIndustry_served [OF Suc.prems(4,5), of i] by (simp_all add: g1_def)
  have "outs ! (n mod length outs) \<in> set outs"
    using Suc.prems(2) by (intro nth_mem) simp
  with Suc.prems(3) have target: "outs ! (n mod length outs) < length g1"
    using g1(3) by (simp add: less_SucI)
  have ind: "length g < length g1" using g1(3) by simp
  note a = attach_served [OF out ind target g1(1,2)]
  have ind2: "length g < length g2" using ind a(2) by simp
  from buildIngredients_served [OF assms(1) ings ind2 a(3,4)]
  have g3: "length g2 \<le> length g3" "linksClosed g3" "splitsServed S g3" by simp_all
  have len3: "length g \<le> length g3" using g3(1) ind2 by simp
  have outs3: "\<forall>c\<in>set outs. c < length g3" using Suc.prems(3) len3 by auto
  from Suc.IH [OF rest Suc.prems(2) outs3 g3(2,3)] len3 show ?case by simp
qed

lemma newOutputs_served:
  assumes run: "newOutputs cfg i n g = Inr (outs, g1)" and closed: "linksClosed g"
    and served: "splitsServed S g"
  shows "outs \<noteq> [] \<and> (\<forall>c\<in>set outs. c < length g1) \<and> length g \<le> length g1 \<and>
         linksClosed g1 \<and> splitsServed (S \<union> set outs) g1"
proof (cases "int (MAX_CONTAINER_LINKS cfg) < n")
  case True
  with run have pos: "0 < MAX_CONTAINER_LINKS cfg"
    by (cases "MAX_CONTAINER_LINKS cfg = 0") (simp_all add: newOutputs_def)
  define k where "k = \<lceil>rat_of_int n / rat_of_nat (MAX_CONTAINER_LINKS cfg)\<rceil>"
  define e where "e = \<lceil>rat_of_int n / rat_of_int k\<rceil>"
  define ns where "ns = map (\<lambda>s. (newNode ContainerNode i)\<lparr>isSplit := True, splitFraction := s\<rparr>)
                          (map (\<lambda>numLinks. rat_of_int numLinks / rat_of_int n) (splitLinks (nat k) e n))"
  have k2: "2 \<le> k" using split_shares(1) [OF pos True] by (simp add: k_def)
  have len: "length ns = nat k" by (simp add: ns_def length_splitLinks)
  from run True pos have eq: "outs = [length g ..< length g + length ns]" "g1 = g @ ns"
    by (simp_all add: newOutputs_def Let_def createSplitContainers_eq k_def [symmetric]
          e_def [symmetric] ns_def)
  have "outs \<noteq> []" using eq(1) len k2 by simp
  moreover have "\<forall>c\<in>set outs. c < length g1" using eq by simp
  moreover have "length g \<le> length g1" using eq by simp
  moreover have "linksClosed g1"
    unfolding eq using closed by (rule linksClosed_append_list) (simp add: ns_def newNode_fields)
  moreover have "splitsServed (S \<union> set outs) g1"
    unfolding eq using served by (rule splitsServed_append_list)
  ultimately show ?thesis by simp
next
  case False
  with run have eq: "outs = [length g]" "g1 = g @ [newNode ContainerNode i]"
    by (simp_all add: newOutputs_def createContainer_def createNode_def)
  have "extends g g1" unfolding eq by (simp add: extends_append served_newNode)
  with served have "splitsServed S g1" by (rule splitsServed_extends)
  then have "splitsServed (S \<union> set outs) g1" by (rule splitsServed_mono) simp
  moreover have "linksClosed g1"
    unfolding eq using closed by (simp add: linksClosed_append newNode_fields)
  ultimately show ?thesis using eq by simp
qed

lemma selectOutputs_served:
  assumes run: "selectOutputs cfg db i r perIndustry containers g = Inr (outs, n, g1)"
    and valid: "\<forall>c\<in>set containers. c < length g" and closed: "linksClosed g"
    and served: "splitsServed S g"
  shows "outs \<noteq> [] \<and> (\<forall>c\<in>set outs. c < length g1) \<and> length g \<le> length g1 \<and>
         linksClosed g1 \<and> splitsServed (S \<union> set outs) g1"
proof (cases "find (\<lambda>c. canAddIncomingLinks cfg (g ! c)
                          \<lceil>(r + egress cfg db g c - ingress cfg db g c) / perIndustry\<rceil> \<and>
                        canAddOutgoingLinks cfg (g ! c) 1) containers")
  case (Some c)
  with run have eq: "outs = [c]" "g1 = g" by (simp_all add: selectOutputs_def Let_def)
  from Some have "c \<in> set containers" by (simp add: find_Some_set)
  with valid have "c < length g" by simp
  moreover from served have "splitsServed (S \<union> set outs) g" by (rule splitsServed_mono) simp
  ultimately show ?thesis using eq closed by simp
next
  case None
  with run have "newOutputs cfg i \<lceil>r / perIndustry\<rceil> g = Inr (outs, g1)"
    by (auto simp: selectOutputs_def Let_def split: sum.splits)
  then show ?thesis using closed served by (rule newOutputs_served)
qed

lemma produceBody_served:
  assumes rec: "servesSplits rec"
  shows "servesSplits (produceBody rec cfg db)"
  unfolding servesSplits_def
proof (intro allI impI)
  fix i r g outs g' S
  assume run: "produceBody rec cfg db i r g = Inr (outs, g')"
    and closed: "linksClosed g" and served: "splitsServed S g"
  have valid: "\<forall>c\<in>set (getContainers i g). c < length g"
    by (simp add: getContainers_props)
  have reuse: "length g \<le> length g' \<and> linksClosed g' \<and> splitsServed (S \<union> set outs) g' \<and>
        (\<forall>c\<in>set outs. c < length g')"
    if "outs = [c]" "g' = g" "c \<in> set (getContainers i g)" for c
  proof -
    from served have "splitsServed (S \<union> set outs) g" by (rule splitsServed_mono) simp
    with that valid closed show ?thesis by simp
  qed
  have fresh: "length g \<le> length g' \<and> linksClosed g' \<and> splitsServed (S \<union> set outs) g' \<and>
        (\<forall>c\<in>set outs. c < length g')"
    if "outs = [length g]" "g' = g @ [newNode ContainerNode i]"
  proof -
    have "extends g g'" unfolding that by (simp add: extends_append served_newNode)
    with served have "splitsServed S g'" by (rule splitsServed_extends)
    then have "splitsServed (S \<union> set outs) g'" by (rule splitsServed_mono) simp
    moreover have "linksClosed g'"
      unfolding that using closed by (simp add: linksClosed_append newNode_fields)
    ultimately show ?thesis using that by simp
  qed
  show "length g \<le> length g' \<and> linksClosed g' \<and> splitsServed (S \<union> set outs) g' \<and>
        (\<forall>c\<in>set outs. c < length g')"
  proof (cases "isOre cfg i")
    case True
    show ?thesis
    proof (cases "find (\<lambda>c. canAddOutgoingLinks cfg (g ! c) 1) (getContainers i g)")
      case None
      with run True have "outs = [length g]" "g' = g @ [newNode ContainerNode i]"
        by (simp_all add: produceBody_def Let_def createContainer_def createNode_def)
      then show ?thesis by (rule fresh)
    next
      case (Some c)
      with run True have "outs = [c]" "g' = g"
        by (simp_all add: produceBody_def Let_def)
      moreover from Some have "c \<in> set (getContainers i g)" by (simp add: find_Some_set)
      ultimately show ?thesis by (rule reuse)
    qed
  next
    case False
    show ?thesis
    proof (cases "find (\<lambda>c. egress cfg db g c + r < ingress cfg db g c \<and>
                             canAddOutgoingLinks cfg (g ! c) 1) (getContainers i g)")
      case (Some c)
      with run False have "outs = [c]" "g' = g"
        by (simp_all add: produceBody_def Let_def)
      moreover from Some have "c \<in> set (getContainers i g)" by (simp add: find_Some_set)
      ultimately show ?thesis by (rule reuse)
    next
      case None
      with run False obtain recipe perIndustry n g1 where
        sel: "selectOutputs cfg db i r perIndustry (getContainers i g) g = Inr (outs, n, g1)" and
        add: "addIndustries rec cfg recipe i outs 0 (nat n) g1 = Inr g'"
        by (auto simp: produceBody_def Let_def split: sum.splits)
      from selectOutputs_served [OF sel valid closed served]
      have g1: "outs \<noteq> []" "\<forall>c\<in>set outs. c < length g1" "length g \<le> length g1"
        "linksClosed g1" "splitsServed (S \<union> set outs) g1"
        by simp_all
      from addIndustries_served [OF rec add g1(1,2,4,5)]
      have g': "length g1 \<le> length g'" "linksClosed g'" "splitsServed (S \<union> set outs) g'"
        by simp_all
      have "\<forall>c\<in>set outs. c < length g'" using g1(2) g'(1) by auto
      with g1(3) g' show ?thesis by simp
    qed
  qed
qed

lemma produce_served: "servesSplits (produce cfg db fuel)"
proof (induction fuel)
  case 0
  show ?case by (simp add: servesSplits_def)
next
  case (Suc fuel)
  then show ?case by (simp add: produceBody_served)
qed

lemma addAssemblers_served:
  assumes "servesSplits rec" and "addAssemblers rec cfg recipe i out k g = Inr g'"
    and "out < length g" and "linksClosed g" and "splitsServed S g"
  shows "length g \<le> length g' \<and> linksClosed g' \<and> splitsServed S g'"
  using assms(2-)
proof (induction k arbitrary: g)
  case 0
  then show ?case by simp
next
  case (Suc k)
  define g1 where "g1 = g @ [newNode IndustryNode i]"
  from Suc.prems(1) obtain g2 g3 where
    out: "attach cfg (length g) out g1 = Inr g2" and
    ings: "buildIngredients rec cfg (time recipe) (length g) (ingredients recipe) g2 = Inr g3" and
    rest: "addAssemblers rec cfg recipe i out k g3 = Inr g'"
    by (auto simp: createIndustry_def createNode_def outputTo_def g1_def split: sum.splits)
  have g1: "linksClosed g1" "splitsServed S g1" "length g1 = Suc (length g)"
    using createIndustry_served [OF Suc.prems(3,4), of i] by (simp_all add: g1_def)
  have target: "out < length g1" using Suc.prems(2) g1(3) by simp
  have ind: "length g < length g1" using g1(3) by simp
  note a = attach_served [OF out ind target g1(1,2)]
  have ind2: "length g < length g2" using ind a(2) by simp
  from buildIngredients_served [OF assms(1) ings ind2 a(3,4)]
  have g3: "length g2 \<le> length g3" "linksClosed g3" "splitsServed S g3" by simp_all
  have len3: "length g \<le> length g3" using g3(1) ind2 by simp
  have out3: "out < length g3" using Suc.prems(2) len3 by simp
  from Suc.IH [OF rest out3 g3(2,3)] len3 show ?case by simp
qed

lemma addRequirements_served:
  assumes "addRequirements cfg db fuel rs g = Inr g'" and "linksClosed g" and "splitsServed S g"
  shows "length g \<le> length g' \<and> linksClosed g' \<and> splitsServed S g'"
  using assms
proof (induction rs arbitrary: g)
  case Nil
  then show ?case by simp
next
  case (Cons req rs)
  obtain i cnt maintained where req: "req = (i, cnt, maintained)" by (cases req)
  define g1 where "g1 = g @ [(newNode OutputNode i)\<lparr>rate := snd (product (the (db i))) / time (the (db i)) * of_nat cnt,
                                                    maintain := maintained\<rparr>]"
  from Cons.prems(1) req obtain recipe g2 where
    recipe: "db i = Some recipe" and
    asm: "addAssemblers (produce cfg db fuel) cfg recipe i (length g) cnt g1 = Inr g2" and
    rest: "addRequirements cfg db fuel rs g2 = Inr g'"
    by (auto simp: findRecipe_def createOutput_def createNode_def g1_def
          split: sum.splits option.splits if_splits)
  have new: "\<not> unserved (g1 ! length g)" "producers (g1 ! length g) = []" "consumers (g1 ! length g) = []"
    by (simp_all add: g1_def unserved_def newNode_def)
  have shape: "g1 = g @ [g1 ! length g]" by (simp add: g1_def)
  have "extends g g1" by (subst shape) (rule extends_append [OF new(1)])
  with Cons.prems(3) have served1: "splitsServed S g1" by (rule splitsServed_extends)
  have closed1: "linksClosed g1"
    by (subst shape) (rule linksClosed_append [OF Cons.prems(2) new(2,3)])
  have out: "length g < length g1" by (simp add: g1_def)
  from addAssemblers_served [OF produce_served asm out closed1 served1]
  have g2: "length g1 \<le> length g2" "linksClosed g2" "splitsServed S g2" by simp_all
  from Cons.IH [OF rest g2(2,3)] g2(1) out show ?case by simp
qed


lemma handleByproducts_served:
  assumes "handleByproducts cfg db fuel g = Inr g'" and "linksClosed g" and "splitsServed S g"
  shows "linksClosed g' \<and> splitsServed S g'"
proof -
  from assms(1) have run: "byproductLoop cfg db fuel 0 g = Inr g'" by (simp add: handleByproducts_def)
  have "extends g g' \<and> linksClosed g' \<and> (\<forall>c<length g'. reconciled cfg db g' c) \<and>
        length g' \<le> 0 + fuel"
    using run assms(2) by (rule byproductLoop_props) simp_all
  with assms(3) show ?thesis by (auto intro: splitsServed_extends)
qed

lemma splitsServed_detach:
  assumes served: "splitsServed S g" and c: "c < length g" and i: "i < length g"
  shows "splitsServed (S \<union> {c}) (detach c i g)"
  unfolding splitsServed_def length_detach
proof (intro allI impI)
  fix n assume n: "n < length g" and bad: "unserved (detach c i g ! n)"
  show "n \<in> S \<union> {c}"
  proof (cases "n = c")
    case True
    then show ?thesis by simp
  next
    case False
    with bad have "unserved (g ! n)"
      by (simp add: unserved_def detach_fields [OF c i] detach_consumers [OF c i])
    with served n show ?thesis by (simp add: splitsServed_def)
  qed
qed

lemma rewire_served:
  assumes "rewire cfg industry units g = Inr g'" and "industry < length g"
    and "\<forall>u\<in>set units. u < length g" and "linksClosed g" and "splitsServed S g"
  shows "length g' = length g \<and> linksClosed g' \<and> splitsServed S g'"
  using assms
proof (induction units arbitrary: g)
  case Nil
  then show ?case by simp
next
  case (Cons u us)
  from Cons.prems(1) obtain c g1 where
    found: "directInput g industry u = Some c" and
    link: "attach cfg c u (detach c industry g) = Inr g1" and
    rest: "rewire cfg industry us g1 = Inr g'"
    by (auto simp: takeFrom_def split: option.splits sum.splits)
  from found have "c \<in> set (producers (g ! industry))"
    by (auto simp: directInput_def dest: find_Some_set)
  with Cons.prems(2,4) have c: "c < length g" unfolding linksClosed_iff by blast
  have u: "u < length g" using Cons.prems(3) by simp
  note i = Cons.prems(2)
  have closed0: "linksClosed (detach c industry g)"
    using Cons.prems(4) c i by (rule linksClosed_detach)
  have served0: "splitsServed (S \<union> {c}) (detach c industry g)"
    using Cons.prems(5) c i by (rule splitsServed_detach)
  have c0: "c < length (detach c industry g)" and u0: "u < length (detach c industry g)"
    using c u by (simp_all add: length_detach)
  note a = attach_served [OF link c0 u0 closed0 served0]
  have len1: "length g1 = length g" using a(2) by (simp add: length_detach)
  have "splitsServed S g1" using a(4) by (rule splitsServed_drop) (simp add: a(5))
  moreover have "industry < length g1" using i len1 by simp
  moreover have "\<forall>u\<in>set us. u < length g1" using Cons.prems(3) len1 by simp
  ultimately have "length g' = length g1 \<and> linksClosed g' \<and> splitsServed S g'"
    using Cons.IH [OF rest] a(3) by simp
  with len1 show ?case by simp
qed

lemma relink_served:
  assumes run: "relink cfg industry tc g = Inr g'" and i: "industry < length g"
    and tc: "tc < length g" and closed: "linksClosed g" and served: "splitsServed S g"
  shows "length g' = length g \<and> linksClosed g' \<and> splitsServed S g'"
proof -
  from run obtain g1 where
    rw: "rewire cfg industry (producers (g ! tc)) g = Inr g1" and
    link: "attach cfg tc industry g1 = Inr g'"
    by (auto simp: relink_def takeFrom_def split: sum.splits)
  have units: "\<forall>u\<in>set (producers (g ! tc)). u < length g"
    using closed tc unfolding linksClosed_iff by blast
  from rewire_served [OF rw i units closed served]
  have g1: "length g1 = length g" "linksClosed g1" "splitsServed S g1" by simp_all
  have tc1: "tc < length g1" and i1: "industry < length g1" using tc i g1(1) by simp_all
  note a = attach_served [OF link tc1 i1 g1(2,3)]
  show ?thesis using a(2,3,4) g1(1) by simp
qed

lemma addTransferUnits_served:
  assumes "addTransferUnits cfg tc is g = Inr g'" and "tc < length g" and "linksClosed g"
    and "splitsServed S g"
  shows "length g \<le> length g' \<and> linksClosed g' \<and> splitsServed S g'"
  using assms
proof (induction "is" arbitrary: g)
  case Nil
  then show ?case by simp
next
  case (Cons i "is")
  define g1 where "g1 = g @ [newNode TransferNode i]"
  from Cons.prems(1) obtain g2 where
    out: "attach cfg (length g) tc g1 = Inr g2" and
    rest: "addTransferUnits cfg tc is g2 = Inr g'"
    by (auto simp: createTransferUnit_def createNode_def outputTo_def g1_def split: sum.splits)
  have "extends g g1" by (simp add: g1_def extends_append served_newNode)
  with Cons.prems(4) have served1: "splitsServed S g1" by (rule splitsServed_extends)
  have closed1: "linksClosed g1"
    using Cons.prems(3) by (simp add: g1_def linksClosed_append newNode_fields)
  have unit: "length g < length g1" and tc1: "tc < length g1"
    using Cons.prems(2) by (simp_all add: g1_def)
  note a = attach_served [OF out unit tc1 closed1 served1]
  have len2: "length g \<le> length g2" using a(2) by (simp add: g1_def)
  have tc2: "tc < length g2" using Cons.prems(2) len2 by simp
  from Cons.IH [OF rest tc2 a(3,4)] len2 show ?case by simp
qed

lemma chooseTransferContainer_served:
  assumes run: "chooseTransferContainer cfg is x g = Inr (tc, g')" and closed: "linksClosed g"
    and served: "splitsServed S g"
  shows "tc < length g' \<and> length g \<le> length g' \<and> linksClosed g' \<and> splitsServed S g'"
proof (cases "find (usable cfg g x) (getTransferContainers is g)")
  case (Some t)
  with run have eq: "tc = t" "g' = g" by (simp_all add: chooseTransferContainer_def)
  from Some have "t \<in> set (getTransferContainers is g)" by (simp add: find_Some_set)
  then have "t < length g" by (simp add: getTransferContainers_def nodesOfKind_def)
  with eq closed served show ?thesis by simp
next
  case None
  define n where "n = (newNode TransferContainerNode 0)\<lparr>items := take (nat (x + 1)) is\<rparr>"
  from run None have tc: "tc = length g" and
    units: "addTransferUnits cfg (length g) (take (nat (x + 1)) is) (g @ [n]) = Inr g'"
    by (auto simp: chooseTransferContainer_def Let_def createTransferContainer_def createNode_def
          n_def split: sum.splits)
  have fresh: "\<not> unserved n" "producers n = []" "consumers n = []"
    by (simp_all add: n_def unserved_def newNode_def)
  have "extends g (g @ [n])" using fresh(1) by (rule extends_append)
  with served have served1: "splitsServed S (g @ [n])" by (rule splitsServed_extends)
  have closed1: "linksClosed (g @ [n])" using closed fresh(2,3) by (rule linksClosed_append)
  have "length g < length (g @ [n])" by simp
  from addTransferUnits_served [OF units this closed1 served1] tc show ?thesis by simp
qed

lemma handleIndustry_served:
  assumes run: "handleIndustry cfg industry g db = (Inr g', db')" and i: "industry < length g"
    and closed: "linksClosed g" and served: "splitsServed S g"
  shows "length g \<le> length g' \<and> linksClosed g' \<and> splitsServed S g'"
proof -
  from run obtain recipe where recipe: "findRecipe db (item (g ! industry)) = Inr recipe"
    by (cases "findRecipe db (item (g ! industry))") (simp_all add: handleIndustry_def)
  define x where "x = int (incomingLinkCount (g ! industry)) - int (MAX_INDUSTRY_LINKS cfg)"
  show ?thesis
  proof (cases "0 < x")
    case False
    with run recipe have "g' = g" by (simp add: handleIndustry_def Let_def x_def)
    with closed served show ?thesis by simp
  next
    case True
    with run recipe obtain tc g1 where
      choose: "chooseTransferContainer cfg (map fst (sort_key snd (ingredients recipe))) x g
                 = Inr (tc, g1)" and
      rel: "relink cfg industry tc g1 = Inr g'"
      by (auto simp: handleIndustry_def Let_def x_def split: sum.splits)
    from chooseTransferContainer_served [OF choose closed served]
    have g1: "tc < length g1" "length g \<le> length g1" "linksClosed g1" "splitsServed S g1"
      by simp_all
    have i1: "industry < length g1" using i g1(2) by simp
    from relink_served [OF rel i1 g1(1,3,4)] g1(2) show ?thesis by simp
  qed
qed

lemma industryLoop_served:
  assumes "industryLoop cfg is g db = (Inr g', db')" and "\<forall>i\<in>set is. i < length g"
    and "linksClosed g" and "splitsServed S g"
  shows "linksClosed g' \<and> splitsServed S g'"
  using assms
proof (induction "is" arbitrary: g db)
  case Nil
  then show ?case by simp
next
  case (Cons i "is")
  from Cons.prems(1) obtain g1 db1 where
    first: "handleIndustry cfg i g db = (Inr g1, db1)" and
    rest: "industryLoop cfg is g1 db1 = (Inr g', db')"
    by (auto split: prod.splits sum.splits)
  have i: "i < length g" using Cons.prems(2) by simp
  from handleIndustry_served [OF first i Cons.prems(3,4)]
  have g1: "length g \<le> length g1" "linksClosed g1" "splitsServed S g1" by simp_all
  have "\<forall>i\<in>set is. i < length g1" using Cons.prems(2) g1(1) by auto
  from Cons.IH [OF rest this g1(2,3)] show ?case .
qed

lemma synthesise_served:
  assumes "fst (synthesise cfg db fuel rs) = Inr g"
  shows "splitsServed {} g"
proof -
  from assms obtain g1 g2 where
    req: "addRequirements cfg db fuel rs [] = Inr g1" and
    byp: "handleByproducts cfg db fuel g1 = Inr g2" and
    loop: "fst (industryLoop cfg (nodesOfKind IndustryNode g2) g2 db) = Inr g"
    by (auto simp: synthesise_def handleIndustryLinks_def split: sum.splits)
  define db' where "db' = snd (industryLoop cfg (nodesOfKind IndustryNode g2) g2 db)"
  have ind: "industryLoop cfg (nodesOfKind IndustryNode g2) g2 db = (Inr g, db')"
    unfolding db'_def loop [symmetric] by simp
  have "linksClosed []" by (simp add: linksClosed_def)
  moreover have "splitsServed {} []" by (simp add: splitsServed_def)
  ultimately have g1: "linksClosed g1" "splitsServed {} g1"
    using addRequirements_served [OF req] by simp_all
  from handleByproducts_served [OF byp g1]
  have g2: "linksClosed g2" "splitsServed {} g2" by simp_all
  have "\<forall>i\<in>set (nodesOfKind IndustryNode g2). i < length g2" by (simp add: nodesOfKind_less)
  from industryLoop_served [OF ind this g2] show ?thesis by simp
qed

text \<open>
  C10. In a graph that \<^verbatim>\<open>buildFactory\<close> returns, every container marked split has exactly one
  outgoing link: at least one by the construction above, at most one by \<^verbatim>\<open>sanityCheck\<close>
  (line 259).
\<close>

theorem buildFactory_split_one_link:
  assumes "fst (buildFactory cfg db fuel rs) = Inr g" and "c < length g"
    and "kind (g ! c) = ContainerNode" and "isSplit (g ! c)"
  shows "outgoingLinkCount (g ! c) = 1"
proof -
  from assms(1) have syn: "fst (synthesise cfg db fuel rs) = Inr g"
    and ok: "sanityCheck cfg (snd (synthesise cfg db fuel rs)) g = Inr ()"
    by (simp_all add: buildFactory_Inr)
  from ok assms(2,3) have "checkContainer cfg (snd (synthesise cfg db fuel rs)) g c = Inr ()"
    by (simp add: sanityCheck_ok)
  with assms(4) have upper: "outgoingLinkCount (g ! c) \<le> 1" by (simp add: checkContainer_ok)
  from syn have "splitsServed {} g" by (rule synthesise_served)
  with assms(2,3,4) have "consumers (g ! c) \<noteq> []" by (auto simp: splitsServed_def unserved_def)
  then have "0 < outgoingLinkCount (g ! c)" by (simp add: outgoingLinkCount_def)
  with upper show ?thesis by simp
qed

text \<open>
  The theorem at work. One assembler of item 2 over \<open>twelveDB\<close> needs twelve industries of
  item 1, more than a container takes: nodes 2 and 3 of the 18 are split containers of one
  half each, and the assembler draws from both.
\<close>

theorem buildFactory_split_one_link_witness:
  "\<exists>g. fst (buildFactory (stdConfig ore0) twelveDB 30 [(2, 1, 0)]) = Inr g \<and> length g = 18 \<and>
       kind (g ! 2) = ContainerNode \<and> isSplit (g ! 2) \<and> outgoingLinkCount (g ! 2) = 1 \<and>
       kind (g ! 3) = ContainerNode \<and> isSplit (g ! 3) \<and> outgoingLinkCount (g ! 3) = 1"
proof -
  have "case fst (buildFactory (stdConfig ore0) twelveDB 30 [(2, 1, 0)]) of
          Inl e \<Rightarrow> False
        | Inr g \<Rightarrow> length g = 18 \<and> kind (g ! 2) = ContainerNode \<and> isSplit (g ! 2) \<and>
                   kind (g ! 3) = ContainerNode \<and> isSplit (g ! 3)"
    by code_simp
  then obtain g where g: "fst (buildFactory (stdConfig ore0) twelveDB 30 [(2, 1, 0)]) = Inr g"
      "length g = 18" "kind (g ! 2) = ContainerNode" "isSplit (g ! 2)"
      "kind (g ! 3) = ContainerNode" "isSplit (g ! 3)"
    by (auto split: sum.splits)
  have "outgoingLinkCount (g ! 2) = 1"
    using buildFactory_split_one_link [OF g(1) _ g(3,4)] g(2) by simp
  moreover have "outgoingLinkCount (g ! 3) = 1"
    using buildFactory_split_one_link [OF g(1) _ g(5,6)] g(2) by simp
  ultimately show ?thesis using g by blast
qed

end
